theory Spec2Isabelle
  imports Main "HOL-Library.Word" "HOL-Library.Char_ord" "HOL-Library.List_Lexorder"
    "HOL-Library.Multiset"
begin

unbundle bit_operations_syntax

section \<open>Provenance generation: \<^verbatim>\<open>cmd/slsa-provenance/cli/generate.go\<close>\<close>

text \<open>
  The development follows the single source file of the command.  Go strings are byte
  sequences and are modelled as \<^typ>\<open>string\<close>; a Go \<^verbatim>\<open>[]byte\<close> is a list of
  8-bit words.  A Go function returning \<^verbatim>\<open>(T, error)\<close> is modelled with a sum
  (\<open>Inl\<close> the error) or, where the source returns both components, with a pair whose
  second component is \<open>None\<close> for the \<^verbatim>\<open>nil\<close> error.
\<close>

subsection \<open>Constants\<close>

definition gitHubHostedIDSuffix :: string where
  "gitHubHostedIDSuffix = ''/Attestations/GitHubHostedActions@v1''"

definition selfHostedIDSuffix :: string where
  "selfHostedIDSuffix = ''/Attestations/SelfHostedActions@v1''"

definition typeID :: string where
  "typeID = ''https://github.com/Attestations/GitHubActionsWorkflow@v1''"

subsection \<open>Errors\<close>

text \<open>
  The operating-system error numbers that the file-system calls of the walk can report.
  \<^verbatim>\<open>os.IsNotExist\<close> holds exactly for a path error that carries \<open>ENOENT\<close>.
\<close>

datatype errno = ENOENT | ENOTDIR | EACCES | EISDIR | ELOOP | EIO

datatype go_error =
    PathError string string errno
  | ErrorString string
  | SyntaxError string
  | UnmarshalTypeError string string
  | Wrap go_error string

fun IsNotExist :: "go_error option \<Rightarrow> bool" where
  "IsNotExist (Some (PathError operation path e)) = (e = ENOENT)"
| "IsNotExist _ = False"

text \<open>\<^verbatim>\<open>RequiredFlagError\<close>: the error for a required flag without a value.\<close>

definition RequiredFlagError :: "string \<Rightarrow> go_error" where
  "RequiredFlagError flagName = ErrorString (''no value found for required flag: '' @ flagName)"

subsection \<open>The process environment and the builder identity\<close>

text \<open>
  The environment is a finite map from variable names to values; \<^verbatim>\<open>os.Getenv\<close>
  returns the empty string for a variable that is not set.
\<close>

type_synonym environ = "string \<rightharpoonup> string"

definition Getenv :: "environ \<Rightarrow> string \<Rightarrow> string" where
  "Getenv env key = (case env key of None \<Rightarrow> [] | Some v \<Rightarrow> v)"

definition builderID :: "environ \<Rightarrow> string \<Rightarrow> string" where
  "builderID env repoURI =
     (if Getenv env ''GITHUB_ACTIONS'' = ''true''
      then repoURI @ gitHubHostedIDSuffix
      else repoURI @ selfHostedIDSuffix)"

subsection \<open>The in-toto statement\<close>

text \<open>
  A \<^verbatim>\<open>json.RawMessage\<close> that holds a well-formed JSON value is modelled by the
  value it denotes; an object keeps its members in the order of the text, each with its
  name as the decoder reads it (escapes resolved, UTF-8 bytes).
\<close>

datatype json =
    JNull
  | JBool bool
  | JNumber string
  | JString string
  | JArray "json list"
  | JObject "(string \<times> json) list"

type_synonym DigestSet = "string \<rightharpoonup> string"

text \<open>
  Modelled from the spec: the types of package \<^verbatim>\<open>lib/intoto\<close> (Subject, Item, Builder,
  Recipe, Metadata, Predicate, Statement), which the command uses and which are
  declared outside the file.  The fields are those of the output document of the
  specification (section 6): a subject is a name and a digest set, a material is a URI and
  a digest set, the predicate holds the builder, the recipe, the metadata and the
  materials.  The arguments of the recipe are the inputs of the event: a mapping from
  strings to strings, kept as the list of its members in the order of the event document,
  or nothing.
\<close>

type_synonym InputsMap = "(string \<times> string) list"

record Subject =
  Name :: string
  Digest :: DigestSet

record Item =
  URI :: string
  ItemDigest :: DigestSet

record Builder =
  ID :: string

record Recipe =
  RecipeType :: string
  DefinedInMaterial :: int
  EntryPoint :: string
  Arguments :: "InputsMap option"

record Metadata =
  BuildInvocationID :: string

record Predicate =
  PBuilder :: Builder
  PMetadata :: Metadata
  PRecipe :: Recipe
  Materials :: "Item list"

record Statement =
  StatementType :: string
  PredicateType :: string
  StatementSubject :: "Subject list"
  StatementPredicate :: Predicate

text \<open>
  Modelled from the spec: the build context of package \<^verbatim>\<open>lib/github\<close>.  The
  command reads the repository, the run identifier, the workflow name, the commit SHA and
  the raw event payload.  The event is \<open>None\<close> when the context document has no
  \<^verbatim>\<open>event\<close> member (the raw message is then empty).
\<close>

record Context =
  Repository :: string
  RunID :: string
  Workflow :: string
  SHA :: string
  Event :: "json option"

record AnyEvent =
  Inputs :: "InputsMap option"

text \<open>
  \<^verbatim>\<open>json.Unmarshal\<close> stores a member of an object in the struct field whose name
  equals the name of the member up to the case of the letters.  The comparison folds the
  ASCII letters; Unicode case folding adds the long s (U+017F, the bytes C5 BF) as one more
  spelling of the letter s.  \<open>is_inputs_key\<close> holds for the names that select the field
  \<^verbatim>\<open>inputs\<close>.
\<close>

definition upper_ascii :: "char \<Rightarrow> char" where
  "upper_ascii c =
     (case map_of (zip ''abcdefghijklmnopqrstuvwxyz'' ''ABCDEFGHIJKLMNOPQRSTUVWXYZ'') c of
        None \<Rightarrow> c
      | Some u \<Rightarrow> u)"

fun fold_key :: "string \<Rightarrow> string" where
  "fold_key [] = []"
| "fold_key [c] = [upper_ascii c]"
| "fold_key (c # d # cs) =
     (if c = CHR 0xC5 \<and> d = CHR 0xBF then CHR ''S'' # fold_key cs
      else upper_ascii c # fold_key (d # cs))"

definition is_inputs_key :: "string \<Rightarrow> bool" where
  "is_inputs_key k = (fold_key k = ''INPUTS'')"

text \<open>
  Modelled from the spec: decoding the event payload into \<^verbatim>\<open>github.AnyEvent\<close>
  with \<^verbatim>\<open>json.Unmarshal\<close> (source line 140); the type is declared outside the file,
  and the specification gives its one field \<^verbatim>\<open>inputs\<close> as a mapping from strings to
  strings.  Empty input is a syntax error; \<^verbatim>\<open>null\<close> leaves the target untouched; any
  JSON value other than an object cannot be stored in a struct.  The members of an object
  are stored one after the other in the order of the document: a member whose name selects
  the field replaces what the field holds, so that the last such member decides; the other
  members are ignored.  The value of such a member is \<^verbatim>\<open>null\<close> or an object whose
  members are all strings; anything else is a type error, and the first error is the one
  that is returned.
\<close>

fun json_kind :: "json \<Rightarrow> string" where
  "json_kind JNull = ''null''"
| "json_kind (JBool b) = ''bool''"
| "json_kind (JNumber n) = ''number''"
| "json_kind (JString s) = ''string''"
| "json_kind (JArray xs) = ''array''"
| "json_kind (JObject ms) = ''object''"

fun string_members :: "(string \<times> json) list \<Rightarrow> InputsMap option" where
  "string_members [] = Some []"
| "string_members ((k, JString v) # ms) = map_option ((#) (k, v)) (string_members ms)"
| "string_members (m # ms) = None"

fun decode_inputs :: "json \<Rightarrow> go_error + InputsMap option" where
  "decode_inputs JNull = Inr None"
| "decode_inputs (JObject ms) =
     (case string_members ms of
        None \<Rightarrow> Inl (UnmarshalTypeError ''object'' ''inputs'')
      | Some m \<Rightarrow> Inr (Some m))"
| "decode_inputs v = Inl (UnmarshalTypeError (json_kind v) ''inputs'')"

fun store_members :: "(string \<times> json) list \<Rightarrow> AnyEvent \<Rightarrow> go_error + AnyEvent" where
  "store_members [] event = Inr event"
| "store_members ((k, v) # ms) event =
     (if is_inputs_key k then
        (case decode_inputs v of
           Inl err \<Rightarrow> Inl err
         | Inr i \<Rightarrow> store_members ms (event\<lparr>Inputs := i\<rparr>))
      else store_members ms event)"

fun Unmarshal_AnyEvent :: "json option \<Rightarrow> AnyEvent \<Rightarrow> go_error + AnyEvent" where
  "Unmarshal_AnyEvent None event = Inl (SyntaxError ''unexpected end of JSON input'')"
| "Unmarshal_AnyEvent (Some JNull) event = Inr event"
| "Unmarshal_AnyEvent (Some (JObject ms)) event = store_members ms event"
| "Unmarshal_AnyEvent (Some v) event = Inl (UnmarshalTypeError (json_kind v) ''github.AnyEvent'')"






text \<open>
  Modelled from the spec: \<^verbatim>\<open>intoto.SLSAProvenanceStatement\<close> with its options
  \<^verbatim>\<open>WithSubject\<close>, \<^verbatim>\<open>WithBuilder\<close> and \<^verbatim>\<open>WithMetadata\<close>.  The statement
  starts with the two fixed type constants and zero values everywhere else; each option
  stores its argument in the field it is named after.
\<close>

definition StatementType_const :: string where
  "StatementType_const = ''https://in-toto.io/Statement/v0.1''"

definition SlsaPredicateType :: string where
  "SlsaPredicateType = ''https://slsa.dev/provenance/v0.1''"

definition zero_Recipe :: Recipe where
  "zero_Recipe = \<lparr>RecipeType = [], DefinedInMaterial = 0, EntryPoint = [], Arguments = None\<rparr>"

definition zero_Predicate :: Predicate where
  "zero_Predicate =
     \<lparr>PBuilder = \<lparr>ID = []\<rparr>, PMetadata = \<lparr>BuildInvocationID = []\<rparr>,
      PRecipe = zero_Recipe, Materials = []\<rparr>"

definition WithSubject :: "Subject list \<Rightarrow> Statement \<Rightarrow> Statement" where
  "WithSubject s st = st\<lparr>StatementSubject := s\<rparr>"

definition WithBuilder :: "string \<Rightarrow> Statement \<Rightarrow> Statement" where
  "WithBuilder builder_id st =
     st\<lparr>StatementPredicate := (StatementPredicate st)\<lparr>PBuilder := \<lparr>ID = builder_id\<rparr>\<rparr>\<rparr>"

definition WithMetadata :: "string \<Rightarrow> Statement \<Rightarrow> Statement" where
  "WithMetadata buildInvocationID st =
     st\<lparr>StatementPredicate :=
          (StatementPredicate st)\<lparr>PMetadata := \<lparr>BuildInvocationID = buildInvocationID\<rparr>\<rparr>\<rparr>"

definition SLSAProvenanceStatement :: "(Statement \<Rightarrow> Statement) list \<Rightarrow> Statement" where
  "SLSAProvenanceStatement opts =
     fold (\<lambda>opt st. opt st) opts
       \<lparr>StatementType = StatementType_const, PredicateType = SlsaPredicateType,
        StatementSubject = [], StatementPredicate = zero_Predicate\<rparr>"

subsection \<open>Assembling the statement\<close>

text \<open>
  The part of \<^verbatim>\<open>Exec\<close> that follows the decoding of the context documents
  (source lines 119 to 145): it derives the repository URI, builds the statement from the
  subjects, sets recipe and materials, and fails when the event payload does not decode.
\<close>

definition repoURI :: "Context \<Rightarrow> string" where
  "repoURI gh = ''https://github.com/'' @ Repository gh"

definition buildStatement :: "environ \<Rightarrow> Subject list \<Rightarrow> Context \<Rightarrow> go_error + Statement" where
  "buildStatement env subjects gh =
     (let stmt = SLSAProvenanceStatement
                   [WithSubject subjects,
                    WithBuilder (builderID env (repoURI gh)),
                    WithMetadata (repoURI gh @ ''/actions/runs/'' @ RunID gh)];
          stmt = stmt\<lparr>StatementPredicate :=
                   (StatementPredicate stmt)\<lparr>PRecipe :=
                      zero_Recipe\<lparr>RecipeType := typeID, DefinedInMaterial := 0\<rparr>\<rparr>\<rparr>;
          stmt = stmt\<lparr>StatementPredicate := (StatementPredicate stmt)\<lparr>Materials := []\<rparr>\<rparr>;
          stmt = stmt\<lparr>StatementPredicate :=
                   (StatementPredicate stmt)\<lparr>PRecipe :=
                      (PRecipe (StatementPredicate stmt))\<lparr>EntryPoint := Workflow gh\<rparr>\<rparr>\<rparr>
      in case Unmarshal_AnyEvent (Event gh) \<lparr>Inputs = None\<rparr> of
           Inl err \<Rightarrow> Inl (Wrap err ''failed to unmarshal github context event json'')
         | Inr event \<Rightarrow>
             (let stmt = stmt\<lparr>StatementPredicate :=
                           (StatementPredicate stmt)\<lparr>PRecipe :=
                              (PRecipe (StatementPredicate stmt))\<lparr>Arguments := Inputs event\<rparr>\<rparr>\<rparr>;
                  stmt = stmt\<lparr>StatementPredicate :=
                           (StatementPredicate stmt)\<lparr>Materials :=
                              Materials (StatementPredicate stmt) @
                                [\<lparr>URI = ''git+'' @ repoURI gh, ItemDigest = [''sha1'' \<mapsto> SHA gh]\<rparr>]\<rparr>\<rparr>
              in Inr stmt))"

text \<open>
  Source line 150: the payload is the statement serialised by \<^verbatim>\<open>json.MarshalIndent\<close>.
  The serialiser belongs to the standard library and is a function of the statement
  value; it is a parameter here.
\<close>

definition payload ::
  "(Statement \<Rightarrow> string) \<Rightarrow> environ \<Rightarrow> Subject list \<Rightarrow> Context \<Rightarrow> go_error + string" where
  "payload MarshalIndent env subjects gh =
     (case buildStatement env subjects gh of
        Inl err \<Rightarrow> Inl err
      | Inr stmt \<Rightarrow> Inr (MarshalIndent stmt))"

subsection \<open>SHA-256 and hexadecimal encoding\<close>

text \<open>
  \<^verbatim>\<open>sha256.Sum256\<close> computes the SHA-256 digest of FIPS 180-4 over a byte slice: the
  message is padded to a multiple of 64 bytes, and each 64-byte block updates eight 32-bit
  chaining words through 64 rounds.  All additions wrap modulo \<open>2 ^ 32\<close>.
\<close>

type_synonym byte = "8 word"

definition K256 :: "32 word list" where
  "K256 =
     [1116352408, 1899447441, 3049323471, 3921009573,
      961987163, 1508970993, 2453635748, 2870763221,
      3624381080, 310598401, 607225278, 1426881987,
      1925078388, 2162078206, 2614888103, 3248222580,
      3835390401, 4022224774, 264347078, 604807628,
      770255983, 1249150122, 1555081692, 1996064986,
      2554220882, 2821834349, 2952996808, 3210313671,
      3336571891, 3584528711, 113926993, 338241895,
      666307205, 773529912, 1294757372, 1396182291,
      1695183700, 1986661051, 2177026350, 2456956037,
      2730485921, 2820302411, 3259730800, 3345764771,
      3516065817, 3600352804, 4094571909, 275423344,
      430227734, 506948616, 659060556, 883997877,
      958139571, 1322822218, 1537002063, 1747873779,
      1955562222, 2024104815, 2227730452, 2361852424,
      2428436474, 2756734187, 3204031479, 3329325298]"

definition init256 :: "32 word list" where
  "init256 =
     [1779033703, 3144134277, 1013904242, 2773480762,
      1359893119, 2600822924, 528734635, 1541459225]"

definition Ch :: "32 word \<Rightarrow> 32 word \<Rightarrow> 32 word \<Rightarrow> 32 word" where
  "Ch x y z = (x AND y) XOR (NOT x AND z)"

definition Maj :: "32 word \<Rightarrow> 32 word \<Rightarrow> 32 word \<Rightarrow> 32 word" where
  "Maj x y z = (x AND y) XOR (x AND z) XOR (y AND z)"

definition bsig0 :: "32 word \<Rightarrow> 32 word" where
  "bsig0 x = word_rotr 2 x XOR word_rotr 13 x XOR word_rotr 22 x"

definition bsig1 :: "32 word \<Rightarrow> 32 word" where
  "bsig1 x = word_rotr 6 x XOR word_rotr 11 x XOR word_rotr 25 x"

definition ssig0 :: "32 word \<Rightarrow> 32 word" where
  "ssig0 x = word_rotr 7 x XOR word_rotr 18 x XOR drop_bit 3 x"

definition ssig1 :: "32 word \<Rightarrow> 32 word" where
  "ssig1 x = word_rotr 17 x XOR word_rotr 19 x XOR drop_bit 10 x"

fun be32 :: "byte list \<Rightarrow> 32 word" where
  "be32 [b0, b1, b2, b3] =
     push_bit 24 (ucast b0) OR push_bit 16 (ucast b1) OR push_bit 8 (ucast b2) OR ucast b3"
| "be32 bs = 0"

definition put32 :: "32 word \<Rightarrow> byte list" where
  "put32 w = [ucast (drop_bit 24 w), ucast (drop_bit 16 w), ucast (drop_bit 8 w), ucast w]"

definition put64 :: "64 word \<Rightarrow> byte list" where
  "put64 w = map (\<lambda>i. ucast (drop_bit (8 * (7 - i)) w)) [0..<8]"

fun words_of :: "nat \<Rightarrow> byte list \<Rightarrow> 32 word list" where
  "words_of 0 bs = []"
| "words_of (Suc n) bs = be32 (take 4 bs) # words_of n (drop 4 bs)"

fun extend :: "nat \<Rightarrow> 32 word list \<Rightarrow> 32 word list" where
  "extend 0 w = w"
| "extend (Suc n) w =
     (let i = length w
      in extend n (w @ [ssig1 (w ! (i - 2)) + w ! (i - 7) + ssig0 (w ! (i - 15)) + w ! (i - 16)]))"

fun round256 :: "32 word list \<Rightarrow> 32 word \<times> 32 word \<Rightarrow> 32 word list" where
  "round256 [a, b, c, d, e, f, g, h] (k, w) =
     (let t1 = h + bsig1 e + Ch e f g + k + w;
          t2 = bsig0 a + Maj a b c
      in [t1 + t2, a, b, c, d + t1, e, f, g])"
| "round256 st kw = st"

definition block256 :: "32 word list \<Rightarrow> byte list \<Rightarrow> 32 word list" where
  "block256 h p = map2 (+) h (foldl round256 h (zip K256 (extend 48 (words_of 16 p))))"

definition pad256 :: "byte list \<Rightarrow> byte list" where
  "pad256 msg =
     msg @ [0x80] @ replicate ((64 - (length msg + 9) mod 64) mod 64) 0
         @ put64 (of_nat (8 * length msg))"

fun blocks256 :: "nat \<Rightarrow> 32 word list \<Rightarrow> byte list \<Rightarrow> 32 word list" where
  "blocks256 0 h p = h"
| "blocks256 (Suc n) h p = blocks256 n (block256 h (take 64 p)) (drop 64 p)"

definition Sum256 :: "byte list \<Rightarrow> byte list" where
  "Sum256 data =
     (let p = pad256 data in concat (map put32 (blocks256 (length p div 64) init256 p)))"

text \<open>\<^verbatim>\<open>hex.EncodeToString\<close>: two lowercase hexadecimal digits for each byte.\<close>

definition hextable :: string where
  "hextable = ''0123456789abcdef''"

definition EncodeToString :: "byte list \<Rightarrow> string" where
  "EncodeToString src =
     concat (map (\<lambda>v. [hextable ! unat (drop_bit 4 v), hextable ! unat (v AND 0x0f)]) src)"

subsection \<open>Path names: package \<^verbatim>\<open>path/filepath\<close> on Unix\<close>

text \<open>
  The separator is the slash and there are no volume names.  \<open>split_path\<close> cuts a path
  at every separator, \<open>join_elems\<close> puts elements together with one separator between
  neighbours.
\<close>

fun split_path :: "string \<Rightarrow> string list" where
  "split_path [] = [[]]"
| "split_path (c # cs) =
     (if c = CHR ''/'' then [] # split_path cs
      else (case split_path cs of
              [] \<Rightarrow> [[c]]
            | e # es \<Rightarrow> (c # e) # es))"

fun join_elems :: "string list \<Rightarrow> string" where
  "join_elems [] = []"
| "join_elems [e] = e"
| "join_elems (e # es) = e @ CHR ''/'' # join_elems es"

text \<open>
  \<^verbatim>\<open>filepath.Clean\<close> reads the elements of the path from left to right and keeps the
  elements of the result: an empty element and \<^verbatim>\<open>.\<close> are dropped; \<^verbatim>\<open>..\<close> removes
  the element before it when that is an ordinary one, is dropped at the top of a rooted
  path, and is kept otherwise; every other element is kept.  The result is the kept
  elements joined by single separators, after the leading separator for a rooted path, and
  \<^verbatim>\<open>.\<close> when nothing is left of an unrooted path.
\<close>

definition clean_elem :: "bool \<Rightarrow> string list \<Rightarrow> string \<Rightarrow> string list" where
  "clean_elem rooted out e =
     (if e = [] \<or> e = ''.'' then out
      else if e = ''..'' then
        (if out \<noteq> [] \<and> last out \<noteq> ''..'' then butlast out
         else if \<not> rooted then out @ [''..'']
         else out)
      else out @ [e])"

definition Clean :: "string \<Rightarrow> string" where
  "Clean path =
     (if path = [] then ''.''
      else
        (let rooted = (hd path = CHR ''/'');
             out = foldl (clean_elem rooted) [] (split_path path)
         in if rooted then CHR ''/'' # join_elems out
            else if out = [] then ''.''
            else join_elems out))"

text \<open>
  \<^verbatim>\<open>filepath.Join\<close> of two elements, as the walk calls it: empty elements are ignored
  and the result is cleaned.
\<close>

definition Join :: "string \<Rightarrow> string \<Rightarrow> string" where
  "Join dir name =
     (if dir \<noteq> [] then Clean (dir @ CHR ''/'' # name)
      else if name \<noteq> [] then Clean name
      else [])"

text \<open>
  \<^verbatim>\<open>filepath.Base\<close>: the last element of the path, after trailing separators are
  removed; \<^verbatim>\<open>.\<close> for the empty path and a single separator for a path of separators.
\<close>

definition Base :: "string \<Rightarrow> string" where
  "Base path =
     (if path = [] then ''.''
      else
        (let path = rev (dropWhile (\<lambda>c. c = CHR ''/'') (rev path));
             path = rev (takeWhile (\<lambda>c. c \<noteq> CHR ''/'') (rev path))
         in if path = [] then ''/'' else path))"

text \<open>
  \<^verbatim>\<open>filepath.Rel\<close>.  \<open>rel_scan\<close> is its loop, which moves over the two cleaned paths
  element by element up to the first difference; it returns the base element at which it
  stopped (empty when one path ran out) and what is left of both paths from there on.
\<close>

function rel_scan :: "string \<Rightarrow> string \<Rightarrow> string \<times> string \<times> string" where
  "rel_scan base targ =
     (if base = [] \<or> targ = [] then ([], base, targ)
      else
        (let b = takeWhile (\<lambda>c. c \<noteq> CHR ''/'') base;
             t = takeWhile (\<lambda>c. c \<noteq> CHR ''/'') targ
         in if t \<noteq> b then (b, base, targ)
            else rel_scan (drop (Suc (length b)) base) (drop (Suc (length t)) targ)))"
  by pat_completeness auto
termination
  by (relation "measure (\<lambda>(base, targ). length base)") auto

definition rel_error :: "string \<Rightarrow> string \<Rightarrow> go_error" where
  "rel_error basepath targpath =
     ErrorString (''Rel: can'' @ [CHR 0x27] @ ''t make '' @ targpath @ '' relative to '' @ basepath)"

definition Rel :: "string \<Rightarrow> string \<Rightarrow> go_error + string" where
  "Rel basepath targpath =
     (let base = Clean basepath;
          targ = Clean targpath
      in if targ = base then Inr ''.''
         else
           (let base = (if base = ''.'' then [] else base);
                baseSlashed = (base \<noteq> [] \<and> hd base = CHR ''/'');
                targSlashed = (targ \<noteq> [] \<and> hd targ = CHR ''/'')
            in if baseSlashed \<noteq> targSlashed then Inl (rel_error basepath targpath)
               else
                 (case rel_scan base targ of
                    (b, base_left, targ_left) \<Rightarrow>
                      if b = ''..'' then Inl (rel_error basepath targpath)
                      else if base_left \<noteq> [] then
                        Inr (''..''
                             @ concat (replicate (length (filter (\<lambda>c. c = CHR ''/'') base_left)) ''/..'')
                             @ (if targ_left \<noteq> [] then CHR ''/'' # targ_left else []))
                      else Inr targ_left)))"

subsection \<open>The file system\<close>

text \<open>
  What the operating system answers for a path.  \<open>NoEntry\<close>: \<^verbatim>\<open>os.Lstat\<close> fails.
  \<open>NonDir\<close>: an entry that is not a directory, with its type and with what
  \<^verbatim>\<open>os.ReadFile\<close> returns for it (for a symbolic link, the bytes of the file it
  points to, or the error of following it).  \<open>Dir\<close>: a directory with its entries in
  the order in which the system lists them.  \<open>DirNoList\<close>: a directory whose entries
  cannot be listed.  A file system gives the entry for every path string; below a
  directory, the entries are those of the tree.
\<close>

datatype file_type = Regular | Symlink | NamedPipe | Socket | Device

datatype entry =
    NoEntry errno
  | NonDir file_type "errno + byte list"
  | Dir "(string \<times> entry) list"
  | DirNoList errno

type_synonym filesys = "string \<Rightarrow> entry"

fun IsDir :: "entry \<Rightarrow> bool" where
  "IsDir (Dir es) = True"
| "IsDir (DirNoList e) = True"
| "IsDir info = False"

definition Lstat :: "filesys \<Rightarrow> string \<Rightarrow> go_error + entry" where
  "Lstat fs name =
     (case fs name of
        NoEntry e \<Rightarrow> Inl (PathError ''lstat'' name e)
      | info \<Rightarrow> Inr info)"

text \<open>\<open>lstat_in\<close>: \<^verbatim>\<open>os.Lstat\<close> of the entry called \<open>name\<close> in a directory.\<close>

fun lstat_in :: "entry \<Rightarrow> string \<Rightarrow> string \<Rightarrow> go_error + entry" where
  "lstat_in (Dir es) filename name =
     (case map_of es name of
        None \<Rightarrow> Inl (PathError ''lstat'' filename ENOENT)
      | Some (NoEntry e) \<Rightarrow> Inl (PathError ''lstat'' filename e)
      | Some info \<Rightarrow> Inr info)"
| "lstat_in info filename name = Inl (PathError ''lstat'' filename ENOTDIR)"

fun ReadFile :: "string \<Rightarrow> entry \<Rightarrow> go_error + byte list" where
  "ReadFile name (NonDir t (Inr contents)) = Inr contents"
| "ReadFile name (NonDir t (Inl e)) = Inl (PathError ''open'' name e)"
| "ReadFile name (NoEntry e) = Inl (PathError ''open'' name e)"
| "ReadFile name info = Inl (PathError ''read'' name EISDIR)"

text \<open>\<open>readDirNames\<close>: the names of the entries of a directory, sorted.\<close>

fun readDirNames :: "string \<Rightarrow> entry \<Rightarrow> string list \<times> go_error option" where
  "readDirNames dirname (Dir es) = (sort (map fst es), None)"
| "readDirNames dirname (DirNoList e) = ([], Some (PathError ''open'' dirname e))"
| "readDirNames dirname (NoEntry e) = ([], Some (PathError ''open'' dirname e))"
| "readDirNames dirname info = ([], Some (PathError ''readdirent'' dirname ENOTDIR))"

subsection \<open>Collecting the subjects\<close>

text \<open>
  The function literal that \<^verbatim>\<open>subjects\<close> passes to \<^verbatim>\<open>filepath.Walk\<close>.  It appends
  to the captured slice \<open>s\<close>, which is threaded through as state; the second component
  of the result is the error it returns.
\<close>

definition walkFn ::
  "string \<Rightarrow> string \<Rightarrow> entry option \<Rightarrow> go_error option \<Rightarrow> Subject list
     \<Rightarrow> Subject list \<times> go_error option" where
  "walkFn root abspath info err s =
     (if err \<noteq> None then (s, err)
      else if IsDir (the info) then (s, None)
      else
        (case Rel root abspath of
           Inl err \<Rightarrow> (s, Some err)
         | Inr relpath \<Rightarrow>
             (let relpath = (if relpath = ''.'' then Base root else relpath)
              in case ReadFile abspath (the info) of
                   Inl err \<Rightarrow> (s, Some err)
                 | Inr contents \<Rightarrow>
                     (let sha = Sum256 contents;
                          shaHex = EncodeToString sha
                      in (s @ [\<lparr>Name = relpath, Digest = [''sha256'' \<mapsto> shaHex]\<rparr>], None)))))"

text \<open>
  \<^verbatim>\<open>filepath.Walk\<close> and its recursive helper \<^verbatim>\<open>walk\<close>, for a function that never
  returns \<^verbatim>\<open>SkipDir\<close>.  \<open>walk_names\<close> is the loop over the sorted names of a directory.
\<close>

function walk ::
    "string \<Rightarrow> string \<Rightarrow> entry \<Rightarrow> Subject list \<Rightarrow> Subject list \<times> go_error option"
  and walk_names ::
    "string \<Rightarrow> string \<Rightarrow> entry \<Rightarrow> string list \<Rightarrow> Subject list
       \<Rightarrow> Subject list \<times> go_error option"
where
  "walk root path info s =
     (if \<not> IsDir info then walkFn root path (Some info) None s
      else
        (case readDirNames path info of
           (names, err) \<Rightarrow>
             (case walkFn root path (Some info) err s of
                (s1, err1) \<Rightarrow>
                  if err \<noteq> None \<or> err1 \<noteq> None then (s1, err1)
                  else walk_names root path info names s1)))"
| "walk_names root path info [] s = (s, None)"
| "walk_names root path info (name # names) s =
     (let filename = Join path name
      in case lstat_in info filename name of
           Inl err \<Rightarrow>
             (case walkFn root filename None (Some err) s of
                (s1, err1) \<Rightarrow>
                  if err1 \<noteq> None then (s1, err1)
                  else walk_names root path info names s1)
         | Inr fileInfo \<Rightarrow>
             (case walk root filename fileInfo s of
                (s1, err1) \<Rightarrow>
                  if err1 \<noteq> None then (s1, err1)
                  else walk_names root path info names s1))"
  by pat_completeness auto
termination
proof (relation "inv_image (less_than <*lex*> less_than)
    (\<lambda>x. case x of
       Inl (root, path, info, s) \<Rightarrow> (2 * size info + 1, 0)
     | Inr (root, path, info, names, s) \<Rightarrow> (2 * size info, length names))", goal_cases)
  case 1
  show ?case by (intro wf_inv_image wf_lex_prod wf_less_than)
next
  case (2 root path info s names err s1 err1)
  show ?case by simp
next
  case (3 root path info name names s filename err s1 err1)
  show ?case by simp
next
  case (4 root path info name names s filename fileInfo)
  have member: "size e < Suc (size_list (size_prod (\<lambda>_. 0) size) es)"
    if "map_of es n = Some e" for es :: "(string \<times> entry) list" and n e
    using that by (induction es) (auto split: if_splits)
  from 4 have "size fileInfo < size info"
    using member by (cases info) (auto split: option.splits entry.splits)
  then show ?case by simp
next
  case (5 root path info name names s filename fileInfo s1 err1)
  show ?case by simp
qed

definition Walk :: "filesys \<Rightarrow> string \<Rightarrow> Subject list \<Rightarrow> Subject list \<times> go_error option" where
  "Walk fs root s =
     (case Lstat fs root of
        Inl err \<Rightarrow> walkFn root root None (Some err) s
      | Inr info \<Rightarrow> walk root root info s)"

text \<open>
  \<^verbatim>\<open>subjects\<close> returns the slice together with the error of the walk.  The slice is
  read after the walk has run, as the Go compiler evaluates the call first.
\<close>

definition subjects :: "filesys \<Rightarrow> string \<Rightarrow> Subject list \<times> go_error option" where
  "subjects fs root = Walk fs root []"

text \<open>
  Source lines 105 to 110: the scan of the artifact path in \<^verbatim>\<open>Exec\<close>.  An error
  that \<^verbatim>\<open>os.IsNotExist\<close> recognises is replaced by the not-found error that names the
  path as provided; any other error is returned as it is.
\<close>

definition scan :: "filesys \<Rightarrow> string \<Rightarrow> go_error + Subject list" where
  "scan fs artifactPath =
     (case subjects fs artifactPath of
        (subs, err) \<Rightarrow>
          if IsNotExist err then
            Inl (ErrorString (''resource path not found: [provided='' @ artifactPath @ '']''))
          else if err \<noteq> None then Inl (the err)
          else Inr subs)"

subsection \<open>Well-formed trees and the expected subjects\<close>

text \<open>
  The names that a directory can hold: not empty, not \<^verbatim>\<open>.\<close> or \<^verbatim>\<open>..\<close>, and without
  a separator.  In a well-formed tree every directory holds such names only, and no name
  twice.  A tree is readable when every call that the walk makes on it succeeds: every
  entry can be examined, every directory listed, every other entry read.
\<close>

definition good_name :: "string \<Rightarrow> bool" where
  "good_name n = (n \<noteq> [] \<and> n \<noteq> ''.'' \<and> n \<noteq> ''..'' \<and> CHR ''/'' \<notin> set n)"

fun wf_entry :: "entry \<Rightarrow> bool" where
  "wf_entry (Dir es) =
     (distinct (map fst es) \<and> (\<forall>x\<in>set es. good_name (fst x) \<and> wf_entry (snd x)))"
| "wf_entry info = True"

fun readable :: "entry \<Rightarrow> bool" where
  "readable (NonDir t (Inr contents)) = True"
| "readable (Dir es) = (\<forall>x\<in>set es. readable (snd x))"
| "readable info = False"

text \<open>
  \<open>files_under\<close>: the entries below a root that are not directories, each with the list
  of names that leads to it from the root and with its contents, in the order in which
  the file system lists them.  \<open>regular_files_under\<close>: the same for the regular files
  alone.  \<open>walk_order\<close>: the entries of \<open>files_under\<close> in the order of a depth-first
  walk that takes the entries of every directory in ascending order of their names.
\<close>

fun files_under :: "entry \<Rightarrow> (string list \<times> byte list) list" where
  "files_under (NonDir t (Inr contents)) = [([], contents)]"
| "files_under (Dir es) =
     concat (map (\<lambda>x. map (\<lambda>(p, c). (fst x # p, c)) (files_under (snd x))) es)"
| "files_under info = []"

fun regular_files_under :: "entry \<Rightarrow> string list list" where
  "regular_files_under (NonDir t r) = (if t = Regular then [[]] else [])"
| "regular_files_under (Dir es) =
     concat (map (\<lambda>x. map (\<lambda>p. fst x # p) (regular_files_under (snd x))) es)"
| "regular_files_under info = []"

fun walk_order :: "entry \<Rightarrow> (string list \<times> byte list) list" where
  "walk_order (NonDir t (Inr contents)) = [([], contents)]"
| "walk_order (Dir es) =
     concat (map snd (sort_key fst
       (map (\<lambda>x. (fst x, map (\<lambda>(p, c). (fst x # p, c)) (walk_order (snd x)))) es)))"
| "walk_order info = []"

definition listed_names :: "entry \<Rightarrow> string list" where
  "listed_names info = map (\<lambda>pc. join_elems (fst pc)) (files_under info)"

definition regular_names :: "entry \<Rightarrow> string list" where
  "regular_names info = map join_elems (regular_files_under info)"

text \<open>
  The subject expected for an entry: its name is the base name of the root when the entry
  is the root itself, and the names from the root to the entry joined by separators
  otherwise; its digest set holds the SHA-256 digest of the contents in hexadecimal.
\<close>

definition name_at :: "string \<Rightarrow> string list \<Rightarrow> string" where
  "name_at root p = (if p = [] then Base root else join_elems p)"

definition subject_of :: "string \<Rightarrow> byte list \<Rightarrow> Subject" where
  "subject_of n contents = \<lparr>Name = n, Digest = [''sha256'' \<mapsto> EncodeToString (Sum256 contents)]\<rparr>"

definition subject_at :: "string \<Rightarrow> string list \<Rightarrow> string list \<times> byte list \<Rightarrow> Subject" where
  "subject_at root ns pc = subject_of (name_at root (ns @ fst pc)) (snd pc)"

subsection \<open>Cleaned paths as lists of elements\<close>

text \<open>
  For the proofs about \<open>Clean\<close>, \<open>Join\<close> and \<open>Rel\<close>: whether a path is rooted, the
  elements that \<open>Clean\<close> keeps of it, the text of a cleaned path with given elements, and
  the shape of the kept elements (some \<^verbatim>\<open>..\<close> elements, none for a rooted path, followed
  by ordinary names).
\<close>

definition rooted :: "string \<Rightarrow> bool" where
  "rooted path = (path \<noteq> [] \<and> hd path = CHR ''/'')"

definition kept_elems :: "string \<Rightarrow> string list" where
  "kept_elems path = foldl (clean_elem (rooted path)) [] (split_path path)"

definition render :: "bool \<Rightarrow> string list \<Rightarrow> string" where
  "render r out = (if r then CHR ''/'' # join_elems out else if out = [] then ''.'' else join_elems out)"

definition canonical :: "bool \<Rightarrow> string list \<Rightarrow> bool" where
  "canonical r out =
     (\<exists>k ns. out = replicate k ''..'' @ ns \<and> (\<forall>e\<in>set ns. good_name e) \<and> (r \<longrightarrow> k = 0))"

subsection \<open>Example file systems\<close>

text \<open>
  An artifact directory \<^verbatim>\<open>out\<close> with regular files, a subdirectory that holds a
  symbolic link to a readable file, and an empty subdirectory, next to an empty directory
  \<^verbatim>\<open>empty\<close>; a flat directory that the system lists in descending order of the names;
  and the same flat directory listed in ascending order.
\<close>

definition artifacts_fs :: filesys where
  "artifacts_fs path =
     (if path = ''out'' then
        Dir [(''b.txt'', NonDir Regular (Inr [0x62])),
             (''a'', Dir [(''z'', NonDir Regular (Inr [])),
                          (''c'', NonDir Symlink (Inr [0x63]))]),
             (''a.txt'', NonDir Regular (Inr [0x61, 0x62, 0x63])),
             (''e'', Dir [])]
      else if path = ''empty'' then Dir []
      else NoEntry ENOENT)"

definition flat_fs :: filesys where
  "flat_fs path =
     (if path = ''out'' then
        Dir [(''b.txt'', NonDir Regular (Inr [0x62])),
             (''a.txt'', NonDir Regular (Inr [0x61]))]
      else NoEntry ENOENT)"

text \<open>
  A file system with one regular file: a path below the file fails with \<open>ENOTDIR\<close>, any
  other path does not exist.
\<close>

definition one_file_fs :: filesys where
  "one_file_fs path =
     (if path = ''out/app.bin'' then NonDir Regular (Inr [0x61, 0x62, 0x63])
      else if path = ''out/app.bin/x'' then NoEntry ENOTDIR
      else NoEntry ENOENT)"

definition relisted_fs :: filesys where
  "relisted_fs path =
     (if path = ''out'' then
        Dir [(''a.txt'', NonDir Regular (Inr [0x61])),
             (''b.txt'', NonDir Regular (Inr [0x62]))]
      else NoEntry ENOENT)"

section \<open>Properties of the statement builder\<close>

lemma buildStatement_ok:
  assumes "Unmarshal_AnyEvent (Event gh) \<lparr>Inputs = None\<rparr> = Inr event"
  shows "buildStatement env subs gh =
     Inr \<lparr>StatementType = StatementType_const, PredicateType = SlsaPredicateType,
          StatementSubject = subs,
          StatementPredicate =
            \<lparr>PBuilder = \<lparr>ID = builderID env (repoURI gh)\<rparr>,
             PMetadata = \<lparr>BuildInvocationID = repoURI gh @ ''/actions/runs/'' @ RunID gh\<rparr>,
             PRecipe = \<lparr>RecipeType = typeID, DefinedInMaterial = 0,
                        EntryPoint = Workflow gh, Arguments = Inputs event\<rparr>,
             Materials = [\<lparr>URI = ''git+'' @ repoURI gh, ItemDigest = [''sha1'' \<mapsto> SHA gh]\<rparr>]\<rparr>\<rparr>"
  using assms
  by (simp add: buildStatement_def SLSAProvenanceStatement_def WithSubject_def WithBuilder_def
      WithMetadata_def zero_Predicate_def zero_Recipe_def)

lemma buildStatement_err:
  assumes "Unmarshal_AnyEvent (Event gh) \<lparr>Inputs = None\<rparr> = Inl err"
  shows "buildStatement env subs gh =
           Inl (Wrap err ''failed to unmarshal github context event json'')"
  using assms by (simp add: buildStatement_def Let_def)

text \<open>
  Claim C3.  The hosted-environment flag is the test of \<^verbatim>\<open>builderID\<close>.  For every
  repository, the builder identity that \<^verbatim>\<open>Exec\<close> derives is
  \<^verbatim>\<open>https://github.com/\<close> followed by the repository and by the hosted suffix when
  the flag is true, by the self-hosted suffix when it is false.
\<close>

theorem builder_identity_by_flag:
  assumes "flag = (Getenv env ''GITHUB_ACTIONS'' = ''true'')"
  shows "builderID env (repoURI gh) =
           ''https://github.com/'' @ Repository gh @
             (if flag then ''/Attestations/GitHubHostedActions@v1''
              else ''/Attestations/SelfHostedActions@v1'')"
  using assms
  by (simp add: builderID_def repoURI_def gitHubHostedIDSuffix_def selfHostedIDSuffix_def)

theorem builder_identity_by_flag_witness:
  "builderID [''GITHUB_ACTIONS'' \<mapsto> ''true'']
      (repoURI \<lparr>Repository = ''org/repo'', RunID = ''7'', Workflow = ''ci'',
                SHA = ''abc123'', Event = None\<rparr>)
     = ''https://github.com/org/repo/Attestations/GitHubHostedActions@v1''
   \<and> builderID Map.empty
      (repoURI \<lparr>Repository = ''org/repo'', RunID = ''7'', Workflow = ''ci'',
                SHA = ''abc123'', Event = None\<rparr>)
     = ''https://github.com/org/repo/Attestations/SelfHostedActions@v1''"
  using builder_identity_by_flag [of True "[''GITHUB_ACTIONS'' \<mapsto> ''true'']"
      "\<lparr>Repository = ''org/repo'', RunID = ''7'', Workflow = ''ci'',
        SHA = ''abc123'', Event = None\<rparr>"]
    builder_identity_by_flag [of False Map.empty
      "\<lparr>Repository = ''org/repo'', RunID = ''7'', Workflow = ''ci'',
        SHA = ''abc123'', Event = None\<rparr>"]
  by (simp add: Getenv_def)

text \<open>
  Claim C10.  \<^verbatim>\<open>builderID\<close> appends the hosted suffix if and only if the variable
  \<^verbatim>\<open>GITHUB_ACTIONS\<close> is set to exactly \<^verbatim>\<open>true\<close>; in every other case, the
  variable unset or empty included, it appends the self-hosted suffix.
\<close>

theorem builderID_hosted_iff_true:
  "(builderID env r = r @ ''/Attestations/GitHubHostedActions@v1'')
      = (env ''GITHUB_ACTIONS'' = Some ''true'')
   \<and> (env ''GITHUB_ACTIONS'' \<noteq> Some ''true'' \<longrightarrow>
        builderID env r = r @ ''/Attestations/SelfHostedActions@v1'')"
  by (auto simp add: builderID_def Getenv_def gitHubHostedIDSuffix_def selfHostedIDSuffix_def
      split: option.splits)

theorem builderID_hosted_iff_true_witness:
  "builderID [''GITHUB_ACTIONS'' \<mapsto> ''TRUE''] ''https://github.com/org/repo''
     = ''https://github.com/org/repo/Attestations/SelfHostedActions@v1''
   \<and> builderID [''GITHUB_ACTIONS'' \<mapsto> ''1''] ''https://github.com/org/repo''
     = ''https://github.com/org/repo/Attestations/SelfHostedActions@v1''
   \<and> builderID [''GITHUB_ACTIONS'' \<mapsto> []] ''https://github.com/org/repo''
     = ''https://github.com/org/repo/Attestations/SelfHostedActions@v1''
   \<and> builderID Map.empty ''https://github.com/org/repo''
     = ''https://github.com/org/repo/Attestations/SelfHostedActions@v1''"
  using builderID_hosted_iff_true [of "[''GITHUB_ACTIONS'' \<mapsto> ''TRUE'']" "''https://github.com/org/repo''"]
    builderID_hosted_iff_true [of "[''GITHUB_ACTIONS'' \<mapsto> ''1'']" "''https://github.com/org/repo''"]
    builderID_hosted_iff_true [of "[''GITHUB_ACTIONS'' \<mapsto> []]" "''https://github.com/org/repo''"]
    builderID_hosted_iff_true [of Map.empty "''https://github.com/org/repo''"]
  by simp










text \<open>
  Claim C5.  Whenever a statement is assembled, its materials list has exactly one
  element: the URI \<^verbatim>\<open>git+https://github.com/\<close> followed by the repository, with the
  digest set that maps \<^verbatim>\<open>sha1\<close> to the commit SHA of the context.
\<close>

theorem sole_material:
  assumes "buildStatement env subs gh = Inr stmt"
  shows "Materials (StatementPredicate stmt) =
           [\<lparr>URI = ''git+https://github.com/'' @ Repository gh,
             ItemDigest = [''sha1'' \<mapsto> SHA gh]\<rparr>]"
proof (cases "Unmarshal_AnyEvent (Event gh) \<lparr>Inputs = None\<rparr>")
  case (Inl err)
  with assms show ?thesis by (simp add: buildStatement_err)
next
  case (Inr event)
  from buildStatement_ok [OF Inr, of env subs] assms
  show ?thesis by (auto simp add: repoURI_def)
qed

theorem sole_material_witness:
  "buildStatement Map.empty []
      \<lparr>Repository = ''org/repo'', RunID = ''7'', Workflow = ''ci'', SHA = ''abc123'',
       Event = Some JNull\<rparr>
     \<noteq> Inl (Wrap (SyntaxError ''unexpected end of JSON input'')
              ''failed to unmarshal github context event json'')
   \<and> Materials (StatementPredicate (projr (buildStatement Map.empty []
      \<lparr>Repository = ''org/repo'', RunID = ''7'', Workflow = ''ci'', SHA = ''abc123'',
       Event = Some JNull\<rparr>))) =
         [\<lparr>URI = ''git+https://github.com/org/repo'', ItemDigest = [''sha1'' \<mapsto> ''abc123'']\<rparr>]"
proof -
  let ?gh = "\<lparr>Repository = ''org/repo'', RunID = ''7'', Workflow = ''ci'', SHA = ''abc123'',
       Event = Some JNull\<rparr>"
  obtain stmt where s: "buildStatement Map.empty [] ?gh = Inr stmt"
    by (simp add: buildStatement_ok)
  from sole_material [OF s] s show ?thesis by simp
qed

text \<open>
  Claim C7.  Two runs of the statement builder on the same subject list and the same
  build context, in environments that agree on the hosted-environment flag, assemble the
  same statement and therefore produce the same serialised payload, whatever else the two
  environments hold.
\<close>

theorem payload_depends_on_flag_only:
  assumes "(Getenv env1 ''GITHUB_ACTIONS'' = ''true'') = (Getenv env2 ''GITHUB_ACTIONS'' = ''true'')"
  shows "buildStatement env1 subs gh = buildStatement env2 subs gh
       \<and> payload MarshalIndent env1 subs gh = payload MarshalIndent env2 subs gh"
proof -
  from assms have "builderID env1 (repoURI gh) = builderID env2 (repoURI gh)"
    by (simp add: builderID_def)
  then have "buildStatement env1 subs gh = buildStatement env2 subs gh"
    by (simp add: buildStatement_def)
  then show ?thesis by (simp add: payload_def)
qed

theorem payload_depends_on_flag_only_witness:
  "payload (\<lambda>stmt. ID (PBuilder (StatementPredicate stmt)))
      [''GITHUB_ACTIONS'' \<mapsto> ''true'', ''RUNNER_OS'' \<mapsto> ''Linux''] []
      \<lparr>Repository = ''org/repo'', RunID = ''7'', Workflow = ''ci'', SHA = ''abc123'',
       Event = Some JNull\<rparr>
   = payload (\<lambda>stmt. ID (PBuilder (StatementPredicate stmt)))
      [''GITHUB_ACTIONS'' \<mapsto> ''true''] []
      \<lparr>Repository = ''org/repo'', RunID = ''7'', Workflow = ''ci'', SHA = ''abc123'',
       Event = Some JNull\<rparr>"
  using payload_depends_on_flag_only
    [of "[''GITHUB_ACTIONS'' \<mapsto> ''true'', ''RUNNER_OS'' \<mapsto> ''Linux'']"
        "[''GITHUB_ACTIONS'' \<mapsto> ''true'']"]
  by (simp add: Getenv_def)




section \<open>Properties of the subject collector\<close>

subsection \<open>The library functions on known values\<close>

text \<open>
  The path functions on examples of their documented behaviour, and the digest of the empty
  message.
\<close>

lemma Clean_examples:
  "Clean [] = ''.''"
  "Clean ''abc//def//ghi'' = ''abc/def/ghi''"
  "Clean ''abc/./def/'' = ''abc/def''"
  "Clean ''abc/def/../ghi/../jkl'' = ''abc/jkl''"
  "Clean ''abc/def/../../..'' = ''..''"
  "Clean ''/abc/def/../../..'' = ''/''"
  "Clean ''abc/def/../../../ghi/jkl/../../../mno'' = ''../../mno''"
  "Clean ''/../abc'' = ''/abc''"
  by code_simp+

lemma Join_examples:
  "Join ''a'' ''b'' = ''a/b''"
  "Join ''a/'' ''b'' = ''a/b''"
  "Join [] ''b'' = ''b''"
  "Join ''/'' ''a'' = ''/a''"
  "Join ''./out/'' ''app.bin'' = ''out/app.bin''"
  by code_simp+

lemma Base_examples:
  "Base [] = ''.''"
  "Base ''/'' = ''/''"
  "Base ''////'' = ''/''"
  "Base ''x/'' = ''x''"
  "Base ''abc/def'' = ''def''"
  "Base ''a/b/c.x'' = ''c.x''"
  by code_simp+

lemma Rel_examples:
  "Rel ''a/b'' ''a/b/.'' = Inr ''.''"
  "Rel ''ab/cd'' ''ab/cde'' = Inr ''../cde''"
  "Rel ''a/b'' ''a/b/c/d'' = Inr ''c/d''"
  "Rel ''a/b/c'' ''a/c/d'' = Inr ''../../c/d''"
  "Rel ''a/b/c/d'' ''a/b'' = Inr ''../..''"
  "Rel ''/a/b'' ''/a/b/c/d'' = Inr ''c/d''"
  "Rel ''.'' ''a/b'' = Inr ''a/b''"
  "Rel ''/'' ''/a'' = Inr ''a''"
  "Rel ''..'' ''a'' = Inl (rel_error ''..'' ''a'')"
  "Rel ''a'' ''/a'' = Inl (rel_error ''a'' ''/a'')"
  by code_simp+

lemma Sum256_empty:
  "EncodeToString (Sum256 []) =
     ''e3b0c44298fc1c149afbf4c8996fb92427ae41e4649b934ca495991b7852b855''"
  by code_simp

subsection \<open>Scanning a single file or a missing path\<close>

lemma Rel_same: "Rel p p = Inr ''.''"
  by (simp add: Rel_def)

lemma walkFn_file:
  "walkFn root root (Some (NonDir t (Inr contents))) None s =
     (s @ [\<lparr>Name = Base root, Digest = [''sha256'' \<mapsto> EncodeToString (Sum256 contents)]\<rparr>], None)"
  by (simp add: walkFn_def Rel_same)

lemma EncodeToString_lower: "set (EncodeToString src) \<subseteq> set ''0123456789abcdef''"
proof -
  have hi: "unat (drop_bit 4 v) < 16" for v :: byte
  proof -
    have "unat (drop_bit 4 v) = unat v div 2 ^ 4"
      by (simp add: drop_bit_eq_div unat_div)
    moreover have "unat v < 2 ^ 8" using unsigned_less [of v] by simp
    ultimately show ?thesis by simp
  qed
  have lo: "unat (v AND 0x0f) < 16" for v :: byte
  proof -
    have "v AND 0x0f = take_bit 4 v" by (simp add: take_bit_eq_mask mask_eq_exp_minus_1)
    then have "unat (v AND 0x0f) = take_bit 4 (unat v)" by (simp add: unsigned_take_bit_eq)
    then show ?thesis by (simp add: take_bit_eq_mod)
  qed
  have digit: "hextable ! n \<in> set hextable" if "n < 16" for n
    using that by (intro nth_mem) (simp add: hextable_def)
  have "set (EncodeToString src) \<subseteq> set hextable"
    unfolding EncodeToString_def using digit [OF hi] digit [OF lo]
    by (induction src) auto
  then show ?thesis by (simp only: hextable_def)
qed

lemma length_EncodeToString: "length (EncodeToString src) = 2 * length src"
  unfolding EncodeToString_def by (induction src) auto

lemma length_round256: "length (round256 st kw) = length st"
  by (cases "(st, kw)" rule: round256.cases) (simp_all add: Let_def)

lemma length_foldl_round256: "length (foldl round256 st kws) = length st"
  by (induction kws arbitrary: st) (simp_all add: length_round256)

lemma length_block256: "length (block256 h p) = length h"
  by (simp add: block256_def length_foldl_round256)

lemma length_blocks256: "length (blocks256 n h p) = length h"
  by (induction n arbitrary: h p) (simp_all add: length_block256)

lemma length_Sum256: "length (Sum256 data) = 32"
proof -
  have "length (concat (map put32 ws)) = 4 * length ws" for ws
    by (induction ws) (simp_all add: put32_def)
  then show ?thesis
    by (simp add: Sum256_def Let_def length_blocks256 init256_def)
qed

text \<open>
  Claim C1.  When the path \<open>f\<close> is a regular file whose contents read as \<open>C\<close>, the
  subject collector returns exactly one subject and no error.  The name of the subject is
  the base name of \<open>f\<close>; its digest set maps \<^verbatim>\<open>sha256\<close> to the hexadecimal
  encoding of the SHA-256 digest of \<open>C\<close>, which is 64 characters long and uses the
  digits and the lowercase letters \<^verbatim>\<open>a\<close> to \<^verbatim>\<open>f\<close> only.
\<close>

theorem single_file_subject:
  assumes "fs f = NonDir Regular (Inr C)"
  shows "subjects fs f =
           ([\<lparr>Name = Base f, Digest = [''sha256'' \<mapsto> EncodeToString (Sum256 C)]\<rparr>], None)
       \<and> scan fs f = Inr [\<lparr>Name = Base f, Digest = [''sha256'' \<mapsto> EncodeToString (Sum256 C)]\<rparr>]
       \<and> length (EncodeToString (Sum256 C)) = 64
       \<and> set (EncodeToString (Sum256 C)) \<subseteq> set ''0123456789abcdef''"
proof -
  have "subjects fs f =
           ([\<lparr>Name = Base f, Digest = [''sha256'' \<mapsto> EncodeToString (Sum256 C)]\<rparr>], None)"
    using assms by (simp add: subjects_def Walk_def Lstat_def walkFn_file)
  moreover from this have
    "scan fs f = Inr [\<lparr>Name = Base f, Digest = [''sha256'' \<mapsto> EncodeToString (Sum256 C)]\<rparr>]"
    by (simp add: scan_def)
  moreover have "length (EncodeToString (Sum256 C)) = 64"
    by (simp add: length_EncodeToString length_Sum256)
  ultimately show ?thesis
    using EncodeToString_lower [of "Sum256 C"] by blast
qed

lemma Sum256_abc:
  "EncodeToString (Sum256 [0x61, 0x62, 0x63]) =
     ''ba7816bf8f01cfea414140de5dae2223b00361a396177a9cb410ff61f20015ad''"
  by code_simp

theorem single_file_subject_witness:
  "subjects (\<lambda>p. if p = ''dist/app.bin'' then NonDir Regular (Inr [0x61, 0x62, 0x63])
                  else NoEntry ENOENT) ''dist/app.bin'' =
     ([\<lparr>Name = ''app.bin'',
        Digest = [''sha256'' \<mapsto> ''ba7816bf8f01cfea414140de5dae2223b00361a396177a9cb410ff61f20015ad'']\<rparr>],
      None)"
  using single_file_subject
    [of "\<lambda>p. if p = ''dist/app.bin'' then NonDir Regular (Inr [0x61, 0x62, 0x63]) else NoEntry ENOENT"
        "''dist/app.bin''" "[0x61, 0x62, 0x63]"]
  by (simp add: Sum256_abc Base_def)

text \<open>
  Claim C6, as stated, fails: the path \<^verbatim>\<open>out/app.bin/x\<close> lies below a regular file
  and resolves to no entry, yet the scan does not fail with the not-found error: it
  returns the error of \<^verbatim>\<open>os.Lstat\<close>, which \<^verbatim>\<open>os.IsNotExist\<close> does not recognise.
\<close>

theorem scan_below_regular_file:
  "one_file_fs ''out/app.bin/x'' = NoEntry ENOTDIR
   \<and> scan one_file_fs ''out/app.bin/x'' = Inl (PathError ''lstat'' ''out/app.bin/x'' ENOTDIR)
   \<and> scan one_file_fs ''out/app.bin/x''
       \<noteq> Inl (ErrorString ''resource path not found: [provided=out/app.bin/x]'')"
  by (simp add: one_file_fs_def scan_def subjects_def Walk_def Lstat_def walkFn_def)

text \<open>
  Claim C6, amended.  When \<^verbatim>\<open>os.Lstat\<close> of the artifact path fails because no entry
  of that name exists (\<open>ENOENT\<close>), the scan fails with the not-found error, whose message
  holds the path string exactly as it was provided.  When it fails for another reason
  (a component of the path is not a directory, permission is denied, and so on), the scan
  fails with the error of \<^verbatim>\<open>os.Lstat\<close> itself, which names the path as provided too.
\<close>

theorem scan_missing_path:
  assumes "fs p = NoEntry e"
  shows "(e = ENOENT \<longrightarrow>
            scan fs p = Inl (ErrorString (''resource path not found: [provided='' @ p @ '']'')))
       \<and> (e \<noteq> ENOENT \<longrightarrow> scan fs p = Inl (PathError ''lstat'' p e))"
  using assms by (simp add: scan_def subjects_def Walk_def Lstat_def walkFn_def)

theorem scan_missing_path_witness:
  "scan one_file_fs ''./build//out''
     = Inl (ErrorString ''resource path not found: [provided=./build//out]'')
   \<and> scan one_file_fs ''out/app.bin/x'' = Inl (PathError ''lstat'' ''out/app.bin/x'' ENOTDIR)"
proof -
  have a: "one_file_fs ''./build//out'' = NoEntry ENOENT"
    and b: "one_file_fs ''out/app.bin/x'' = NoEntry ENOTDIR"
    by (simp_all add: one_file_fs_def)
  from scan_missing_path [of one_file_fs "''./build//out''" ENOENT, OF a]
    scan_missing_path [of one_file_fs "''out/app.bin/x''" ENOTDIR, OF b]
  show ?thesis by simp
qed

subsection \<open>Cleaning, joining and relating paths\<close>

lemma split_path_nonempty: "split_path p \<noteq> []"
  by (induction p) (auto split: list.splits)

lemma split_path_no_sep: "CHR ''/'' \<notin> set n \<Longrightarrow> split_path n = [n]"
  by (induction n) auto

lemma split_path_snoc:
  "CHR ''/'' \<notin> set n \<Longrightarrow> split_path (p @ CHR ''/'' # n) = split_path p @ [n]"
  by (induction p) (auto simp add: split_path_no_sep split_path_nonempty split: list.splits)

lemma split_path_elems: "e \<in> set (split_path p) \<Longrightarrow> CHR ''/'' \<notin> set e"
proof (induction p arbitrary: e)
  case Nil
  then show ?case by simp
next
  case (Cons c p)
  show ?case
  proof (cases "c = CHR ''/''")
    case True
    with Cons show ?thesis by auto
  next
    case False
    obtain x xs where sp: "split_path p = x # xs"
      using split_path_nonempty [of p] by (cases "split_path p") auto
    with Cons False show ?thesis by auto
  qed
qed

lemma join_elems_Cons: "es \<noteq> [] \<Longrightarrow> join_elems (e # es) = e @ CHR ''/'' # join_elems es"
  by (cases es) auto

lemma join_elems_append:
  "xs \<noteq> [] \<Longrightarrow> ys \<noteq> [] \<Longrightarrow> join_elems (xs @ ys) = join_elems xs @ CHR ''/'' # join_elems ys"
proof (induction xs)
  case Nil
  then show ?case by simp
next
  case (Cons x xs)
  then show ?case by (cases "xs = []") (simp_all add: join_elems_Cons)
qed

lemma split_join:
  "es \<noteq> [] \<Longrightarrow> \<forall>e\<in>set es. CHR ''/'' \<notin> set e \<Longrightarrow> split_path (join_elems es) = es"
proof (induction es rule: rev_induct)
  case Nil
  then show ?case by simp
next
  case (snoc e es)
  show ?case
  proof (cases "es = []")
    case True
    with snoc show ?thesis by (simp add: split_path_no_sep)
  next
    case False
    with snoc show ?thesis by (simp add: join_elems_append split_path_snoc)
  qed
qed

lemma Clean_render: "Clean p = render (rooted p) (kept_elems p)"
  by (simp add: Clean_def render_def rooted_def kept_elems_def Let_def clean_elem_def)

lemma foldl_clean_good:
  "\<forall>e\<in>set ns. good_name e \<Longrightarrow> foldl (clean_elem r) acc ns = acc @ ns"
  by (induction ns arbitrary: acc) (auto simp add: clean_elem_def good_name_def)

lemma foldl_clean_dotdot:
  "foldl (clean_elem False) (replicate j ''..'') (replicate k ''..'') = replicate (j + k) ''..''"
proof (induction k arbitrary: j)
  case 0
  then show ?case by simp
next
  case (Suc k)
  have "clean_elem False (replicate j ''..'') ''..'' = replicate (Suc j) ''..''"
    by (cases j) (simp_all add: clean_elem_def replicate_append_same)
  with Suc [of "Suc j"] show ?case by simp
qed

lemma canonical_step:
  assumes "canonical r out" "CHR ''/'' \<notin> set e"
  shows "canonical r (clean_elem r out e)"
proof -
  from assms obtain k ns where out: "out = replicate k ''..'' @ ns"
    and ns: "\<forall>e\<in>set ns. good_name e" and r: "r \<longrightarrow> k = 0"
    by (auto simp add: canonical_def)
  consider "e = [] \<or> e = ''.''" | "e = ''..''" | "good_name e"
    using assms(2) by (auto simp add: good_name_def)
  then show ?thesis
  proof cases
    case 1
    with assms show ?thesis by (auto simp add: clean_elem_def)
  next
    case 2
    show ?thesis
    proof (cases "ns = []")
      case True
      show ?thesis
      proof (cases r)
        case True
        with r out \<open>ns = []\<close> 2 show ?thesis
          by (auto simp add: clean_elem_def canonical_def)
      next
        case False
        have "clean_elem r out e = replicate (Suc k) ''..''"
          using out \<open>ns = []\<close> 2 False
          by (cases k) (simp_all add: clean_elem_def replicate_append_same)
        then show ?thesis using False
          by (auto simp add: canonical_def intro!: exI [of _ "Suc k"] exI [of _ "[]"])
      qed
    next
      case False
      then have "last out \<noteq> ''..''" using out ns by (auto simp add: good_name_def)
      then have "clean_elem r out e = replicate k ''..'' @ butlast ns"
        using out False 2 by (simp add: clean_elem_def butlast_append)
      moreover have "\<forall>e\<in>set (butlast ns). good_name e"
        using ns by (auto dest: in_set_butlastD)
      ultimately show ?thesis using r by (auto simp add: canonical_def)
    qed
  next
    case 3
    then have "clean_elem r out e = replicate k ''..'' @ (ns @ [e])"
      using out by (auto simp add: clean_elem_def good_name_def)
    moreover have "\<forall>x\<in>set (ns @ [e]). good_name x" using ns 3 by auto
    ultimately show ?thesis using r unfolding canonical_def by blast
  qed
qed

lemma canonical_foldl:
  "canonical r acc \<Longrightarrow> \<forall>e\<in>set es. CHR ''/'' \<notin> set e \<Longrightarrow> canonical r (foldl (clean_elem r) acc es)"
  by (induction es arbitrary: acc) (auto simp add: canonical_step)

lemma canonical_kept: "canonical (rooted p) (kept_elems p)"
proof -
  have "canonical (rooted p) []" by (simp add: canonical_def)
  then show ?thesis
    unfolding kept_elems_def by (rule canonical_foldl) (auto dest: split_path_elems)
qed

lemma canonical_snoc: "canonical r out \<Longrightarrow> good_name n \<Longrightarrow> canonical r (out @ [n])"
  using canonical_step [of r out n] by (auto simp add: clean_elem_def good_name_def)

lemma canonical_no_sep:
  assumes "canonical r out" "e \<in> set out"
  shows "e \<noteq> [] \<and> e \<noteq> ''.'' \<and> CHR ''/'' \<notin> set e"
proof -
  from assms(1) obtain k ns where out: "out = replicate k ''..'' @ ns"
    and ns: "\<forall>e\<in>set ns. good_name e"
    unfolding canonical_def by blast
  from assms(2) out have "e = ''..'' \<or> e \<in> set ns" by auto
  then show ?thesis
  proof
    assume "e = ''..''"
    then show ?thesis by simp
  next
    assume "e \<in> set ns"
    with ns have "good_name e" by blast
    then show ?thesis unfolding good_name_def by blast
  qed
qed

lemma foldl_clean_canonical:
  assumes "canonical r out"
  shows "foldl (clean_elem r) [] out = out"
proof -
  from assms obtain k ns where out: "out = replicate k ''..'' @ ns"
    and ns: "\<forall>e\<in>set ns. good_name e" and r: "r \<longrightarrow> k = 0"
    by (auto simp add: canonical_def)
  show ?thesis
  proof (cases r)
    case True
    with r out ns show ?thesis by (simp add: foldl_clean_good)
  next
    case False
    with out ns foldl_clean_dotdot [of 0 k] show ?thesis
      by (simp add: foldl_clean_good)
  qed
qed

lemma hd_join_elems: "es \<noteq> [] \<Longrightarrow> hd es \<noteq> [] \<Longrightarrow> hd (join_elems es) = hd (hd es)"
  by (cases es rule: join_elems.cases) auto

lemma join_elems_nonempty: "es \<noteq> [] \<Longrightarrow> hd es \<noteq> [] \<Longrightarrow> join_elems es \<noteq> []"
  by (cases es rule: join_elems.cases) auto

lemma render_canonical:
  assumes "canonical r out"
  shows "rooted (render r out) = r" and "kept_elems (render r out) = out"
proof -
  have nosep: "\<forall>e\<in>set out. CHR ''/'' \<notin> set e" and nonempty: "\<forall>e\<in>set out. e \<noteq> []"
    using canonical_no_sep [OF assms] by auto
  show root: "rooted (render r out) = r"
  proof (cases r)
    case True
    then show ?thesis by (simp add: render_def rooted_def)
  next
    case False
    show ?thesis
    proof (cases "out = []")
      case True
      with False show ?thesis by (simp add: render_def rooted_def)
    next
      case ne: False
      then have "hd out \<in> set out" by simp
      with nosep nonempty have "hd out \<noteq> []" "CHR ''/'' \<notin> set (hd out)" by auto
      then have "hd (hd out) \<noteq> CHR ''/''" by (cases "hd out") auto
      with False ne \<open>hd out \<noteq> []\<close> show ?thesis
        by (simp add: render_def rooted_def hd_join_elems)
    qed
  qed
  have "foldl (clean_elem r) [] (split_path (render r out)) = out"
  proof (cases "out = []")
    case True
    then show ?thesis by (cases r) (simp_all add: render_def clean_elem_def)
  next
    case False
    with nosep have sj: "split_path (join_elems out) = out" by (simp add: split_join)
    show ?thesis
    proof (cases r)
      case True
      with False sj foldl_clean_canonical [OF assms] show ?thesis
        by (simp add: render_def clean_elem_def)
    next
      case r: False
      with False sj foldl_clean_canonical [OF assms] show ?thesis
        by (simp add: render_def)
    qed
  qed
  with root show "kept_elems (render r out) = out" by (simp add: kept_elems_def)
qed

lemma Join_good:
  assumes "good_name n"
  shows "Join p n = render (rooted p) (kept_elems p @ [n])"
proof (cases "p = []")
  case True
  from assms have "n \<noteq> []" "hd n \<noteq> CHR ''/''" "split_path n = [n]"
    by (cases n; auto simp add: good_name_def split_path_no_sep)+
  with assms True show ?thesis
    by (simp add: Join_def Clean_render rooted_def kept_elems_def clean_elem_def good_name_def)
next
  case False
  then have "rooted (p @ CHR ''/'' # n) = rooted p" by (simp add: rooted_def)
  moreover have "kept_elems (p @ CHR ''/'' # n) = kept_elems p @ [n]"
    using assms False
    by (simp add: kept_elems_def rooted_def split_path_snoc good_name_def clean_elem_def)
  ultimately show ?thesis using False by (simp add: Join_def Clean_render)
qed

lemma foldl_Join:
  assumes "\<forall>n\<in>set ns. good_name n"
  shows "rooted (foldl Join root ns) = rooted root
       \<and> kept_elems (foldl Join root ns) = kept_elems root @ ns
       \<and> (ns \<noteq> [] \<longrightarrow> foldl Join root ns = render (rooted root) (kept_elems root @ ns))"
  using assms
proof (induction ns rule: rev_induct)
  case Nil
  then show ?case by simp
next
  case (snoc n ns)
  let ?p = "foldl Join root ns"
  from snoc have ih: "rooted ?p = rooted root" "kept_elems ?p = kept_elems root @ ns"
    and n: "good_name n" by auto
  have "canonical (rooted root) (kept_elems root @ ns)"
    using canonical_kept [of ?p] ih by simp
  then have c: "canonical (rooted root) (kept_elems root @ ns @ [n])"
    using canonical_snoc [OF _ n] by fastforce
  have "Join ?p n = render (rooted root) (kept_elems root @ ns @ [n])"
    using Join_good [OF n, of ?p] ih by simp
  with render_canonical [OF c] show ?case by simp
qed

declare rel_scan.simps [simp del]

lemma rel_scan_Nil: "rel_scan [] t = ([], [], t)"
  by (subst rel_scan.simps) simp

lemma rel_scan_step:
  assumes "e \<noteq> []" "CHR ''/'' \<notin> set e" "t \<noteq> []"
  shows "rel_scan e (e @ CHR ''/'' # t) = ([], [], t)"
    and "rel_scan (e @ CHR ''/'' # b) (e @ CHR ''/'' # t) = rel_scan b t"
proof -
  have tw: "takeWhile (\<lambda>c. c \<noteq> CHR ''/'') (e @ CHR ''/'' # x) = e" for x
    using assms(2) by (induction e) auto
  have tw0: "takeWhile (\<lambda>c. c \<noteq> CHR ''/'') e = e"
    using assms(2) by (induction e) auto
  show "rel_scan e (e @ CHR ''/'' # t) = ([], [], t)"
    using assms(1) by (subst rel_scan.simps) (simp add: tw tw0 rel_scan_Nil)
  show "rel_scan (e @ CHR ''/'' # b) (e @ CHR ''/'' # t) = rel_scan b t"
    by (subst rel_scan.simps) (simp add: tw)
qed

lemma rel_scan_join:
  assumes "\<forall>e\<in>set xs. e \<noteq> [] \<and> CHR ''/'' \<notin> set e"
    and "\<forall>e\<in>set ns. e \<noteq> [] \<and> CHR ''/'' \<notin> set e" and "ns \<noteq> []"
  shows "rel_scan (join_elems xs) (join_elems (xs @ ns)) = ([], [], join_elems ns)"
  using assms(1)
proof (induction xs)
  case Nil
  show ?case by (simp add: rel_scan_Nil)
next
  case (Cons e es)
  from assms have ne: "join_elems ns \<noteq> []"
    by (intro join_elems_nonempty) (auto simp add: hd_in_set)
  show ?case
  proof (cases "es = []")
    case True
    with Cons.prems assms(3) ne show ?thesis
      by (simp add: join_elems_Cons rel_scan_step(1))
  next
    case False
    then have "join_elems (es @ ns) \<noteq> []"
      using Cons.prems by (intro join_elems_nonempty) (auto simp add: hd_append)
    with Cons False show ?thesis
      by (simp add: join_elems_Cons rel_scan_step(2))
  qed
qed

lemma join_elems_not_dot:
  assumes "\<forall>e\<in>set es. e \<noteq> [] \<and> e \<noteq> ''.''"
  shows "join_elems es \<noteq> ''.''"
proof (cases es rule: join_elems.cases)
  case 1
  then show ?thesis by simp
next
  case (2 e)
  with assms show ?thesis by simp
next
  case (3 e v va)
  with assms have "e \<noteq> []" by simp
  then have "length (join_elems es) \<ge> 2" using 3 by (cases e) simp_all
  then show ?thesis by auto
qed

lemma join_elems_longer:
  assumes "\<forall>e\<in>set ys. e \<noteq> []" "ys \<noteq> []"
  shows "length (join_elems xs) < length (join_elems (xs @ ys))"
proof (cases "xs = []")
  case True
  have "join_elems ys \<noteq> []" using assms by (intro join_elems_nonempty) (auto simp add: hd_in_set)
  with True show ?thesis by simp
next
  case False
  with assms show ?thesis by (simp add: join_elems_append)
qed

lemma Rel_below:
  assumes good: "\<forall>n\<in>set ns. good_name n" and ne: "ns \<noteq> []"
  shows "Rel root (foldl Join root ns) = Inr (join_elems ns)"
proof -
  let ?r = "rooted root" and ?s = "kept_elems root"
  let ?b = "Clean root" and ?t = "Clean (foldl Join root ns)"
  have cs: "canonical ?r ?s" by (rule canonical_kept)
  have s_elems: "\<forall>e\<in>set ?s. e \<noteq> [] \<and> CHR ''/'' \<notin> set e"
    and s_dot: "\<forall>e\<in>set ?s. e \<noteq> [] \<and> e \<noteq> ''.''"
    using canonical_no_sep [OF cs] by auto
  have n_elems: "\<forall>e\<in>set ns. e \<noteq> [] \<and> CHR ''/'' \<notin> set e"
    and n_dot: "\<forall>e\<in>set ns. e \<noteq> [] \<and> e \<noteq> ''.''"
    using good by (auto simp add: good_name_def)
  have b: "?b = render ?r ?s" by (rule Clean_render)
  have t: "?t = render ?r (?s @ ns)"
    using foldl_Join [OF good, of root] by (simp add: Clean_render)
  have scan: "rel_scan (join_elems ?s) (join_elems (?s @ ns)) = ([], [], join_elems ns)"
    by (rule rel_scan_join [OF s_elems n_elems ne])
  have longer: "length (join_elems ?s) < length (join_elems (?s @ ns))"
    using n_elems ne by (intro join_elems_longer) auto
  have jn: "join_elems ns \<noteq> []"
    using n_elems ne by (intro join_elems_nonempty) (auto simp add: hd_in_set)
  have hdn: "hd (join_elems ns) \<noteq> CHR ''/''"
  proof -
    have "hd ns \<noteq> []" "CHR ''/'' \<notin> set (hd ns)" using n_elems ne by (auto simp add: hd_in_set)
    then have "hd (hd ns) \<noteq> CHR ''/''" by (cases "hd ns") auto
    with ne \<open>hd ns \<noteq> []\<close> show ?thesis by (simp add: hd_join_elems)
  qed
  show ?thesis
  proof (cases ?r)
    case True
    then have b': "?b = CHR ''/'' # join_elems ?s" and t': "?t = CHR ''/'' # join_elems (?s @ ns)"
      using b t by (simp_all add: render_def)
    have "rel_scan ?b ?t = ([], [], join_elems ns)"
      unfolding b' t' by (subst rel_scan.simps) (simp add: scan)
    moreover have "?t \<noteq> ?b" using longer b' t' by auto
    moreover have "?b \<noteq> ''.''" using b' by simp
    ultimately show ?thesis using b' t' by (simp add: Rel_def Let_def)
  next
    case False
    show ?thesis
    proof (cases "?s = []")
      case True
      with False have b': "?b = ''.''" and t': "?t = join_elems ns"
        using b t ne by (simp_all add: render_def)
      have "?t \<noteq> ''.''" unfolding t' by (rule join_elems_not_dot [OF n_dot])
      then show ?thesis
        unfolding Rel_def Let_def b' using t' jn hdn by (simp add: rel_scan_Nil)
    next
      case ne_s: False
      with False have b': "?b = join_elems ?s" and t': "?t = join_elems (?s @ ns)"
        using b t by (simp_all add: render_def)
      have bd: "?b \<noteq> ''.''" unfolding b' by (rule join_elems_not_dot [OF s_dot])
      have rb: "rooted ?b = False" and rt: "rooted ?t = False"
        using render_canonical(1) [OF cs] render_canonical(1) [of ?r "?s @ ns"]
          canonical_kept [of "foldl Join root ns"] foldl_Join [OF good, of root] b t False
        by simp_all
      have bne: "?b \<noteq> []" using ne_s s_elems b'
        by (simp add: join_elems_nonempty hd_in_set)
      have tne: "?t \<noteq> []" using longer t' by auto
      from rb bne have hb: "hd ?b \<noteq> CHR ''/''" by (simp add: rooted_def)
      from rt tne have ht: "hd ?t \<noteq> CHR ''/''" by (simp add: rooted_def)
      have "?t \<noteq> ?b" using longer b' t' by auto
      moreover have "rel_scan ?b ?t = ([], [], join_elems ns)"
        unfolding b' t' by (rule scan)
      ultimately show ?thesis
        unfolding Rel_def Let_def using bd hb ht by simp
    qed
  qed
qed

declare walk.simps [simp del] walk_names.simps [simp del]

subsection \<open>The walk over a readable tree\<close>

lemma map_insort_key: "map f (insort_key f x xs) = insort (f x) (map f xs)"
  by (induction xs) simp_all

lemma sort_map_key: "sort (map f xs) = map f (sort_key f xs)"
  by (induction xs) (simp_all add: map_insort_key)

lemma sorted_lookup:
  assumes "distinct (map fst ps)"
  shows "map snd (sort_key fst ps) = map (\<lambda>n. the (map_of ps n)) (sort (map fst ps))"
proof -
  have "the (map_of ps (fst x)) = snd x" if "x \<in> set (sort_key fst ps)" for x
  proof -
    from that have "(fst x, snd x) \<in> set ps" by simp
    with assms have "map_of ps (fst x) = Some (snd x)" by (rule map_of_is_SomeI)
    then show ?thesis by simp
  qed
  then have "map (\<lambda>n. the (map_of ps n)) (map fst (sort_key fst ps)) = map snd (sort_key fst ps)"
    by (simp add: map_idI)
  then show ?thesis by (simp add: sort_map_key)
qed

lemma walkFn_dir: "walkFn root path (Some (Dir es)) None s = (s, None)"
  by (simp add: walkFn_def)

lemma walkFn_nondir:
  assumes "\<forall>n\<in>set ns. good_name n"
  shows "walkFn root (foldl Join root ns) (Some (NonDir t (Inr contents))) None s =
           (s @ [subject_of (name_at root ns) contents], None)"
proof (cases "ns = []")
  case True
  then show ?thesis by (simp add: walkFn_file subject_of_def name_at_def)
next
  case False
  have "\<forall>e\<in>set ns. e \<noteq> [] \<and> e \<noteq> ''.''" using assms by (auto simp add: good_name_def)
  then have "join_elems ns \<noteq> ''.''" by (rule join_elems_not_dot)
  with False Rel_below [OF assms False, of root] show ?thesis
    by (simp add: walkFn_def subject_of_def name_at_def)
qed

lemma lstat_in_readable:
  assumes "distinct (map fst es)" "(n, e) \<in> set es" "readable e"
  shows "lstat_in (Dir es) filename n = Inr e"
proof -
  from assms(1,2) have "map_of es n = Some e" by (rule map_of_is_SomeI)
  with assms(3) show ?thesis by (cases e) simp_all
qed

lemma walk_readable:
  assumes "wf_entry info" "readable info" "\<forall>n\<in>set ns. good_name n"
  shows "walk root (foldl Join root ns) info s =
           (s @ map (subject_at root ns) (walk_order info), None)"
  using assms
proof (induction info arbitrary: ns s)
  case (NoEntry e)
  then show ?case by simp
next
  case (NonDir t r)
  then obtain contents where r: "r = Inr contents" by (cases r) auto
  show ?case
    unfolding r using walkFn_nondir [OF NonDir.prems(3), of root t contents s]
    by (subst walk.simps) (simp add: subject_at_def)
next
  case (DirNoList e)
  then show ?case by simp
next
  case (Dir es)
  let ?path = "foldl Join root ns"
  let ?sub = "\<lambda>n. map (subject_at root (ns @ [n])) (walk_order (the (map_of es n)))"
  from Dir.prems have dist: "distinct (map fst es)" by simp
  have child: "walk root (Join ?path n) e s' =
      (s' @ map (subject_at root (ns @ [n])) (walk_order e), None)"
    if "(n, e) \<in> set es" for n e s'
  proof -
    from that Dir.prems have "wf_entry e" "readable e" "good_name n" by auto
    with Dir.prems(3) have "\<forall>m\<in>set (ns @ [n]). good_name m" by simp
    from Dir.IH [OF that _ \<open>wf_entry e\<close> \<open>readable e\<close> this, of s'] show ?thesis by simp
  qed
  have loop: "walk_names root ?path (Dir es) names s' = (s' @ concat (map ?sub names), None)"
    if "set names \<subseteq> fst ` set es" for names s'
    using that
  proof (induction names arbitrary: s')
    case Nil
    show ?case by (subst walk_names.simps) simp
  next
    case (Cons n names)
    then obtain e where e: "(n, e) \<in> set es" by auto
    with Dir.prems have "readable e" by auto
    with dist e have ls: "lstat_in (Dir es) (Join ?path n) n = Inr e"
      by (intro lstat_in_readable)
    from dist e have "map_of es n = Some e" by (rule map_of_is_SomeI)
    with Cons ls child [OF e] show ?case
      by (subst walk_names.simps) (simp add: Let_def)
  qed
  let ?ps = "map (\<lambda>x. (fst x, map (\<lambda>(p, c). (fst x # p, c)) (walk_order (snd x)))) es"
  have fst_ps: "map fst ?ps = map fst es" by (simp add: comp_def)
  with dist have dps: "distinct (map fst ?ps)" by (simp only:)
  have "map (subject_at root ns) (the (map_of ?ps n)) = ?sub n" if "n \<in> set (map fst es)" for n
  proof -
    from that obtain e where e: "(n, e) \<in> set es" by auto
    with dist have "map_of es n = Some e" by (rule map_of_is_SomeI)
    moreover from e have "(n, map (\<lambda>(p, c). (n # p, c)) (walk_order e)) \<in> set ?ps" by force
    with dps have "map_of ?ps n = Some (map (\<lambda>(p, c). (n # p, c)) (walk_order e))"
      by (rule map_of_is_SomeI)
    ultimately show ?thesis by (simp add: subject_at_def comp_def case_prod_beta)
  qed
  then have "map (map (subject_at root ns)) (map (\<lambda>n. the (map_of ?ps n)) (sort (map fst es)))
      = map ?sub (sort (map fst es))"
    by simp
  moreover have "map snd (sort_key fst ?ps) = map (\<lambda>n. the (map_of ?ps n)) (sort (map fst es))"
    using sorted_lookup [OF dps] by (simp only: fst_ps)
  moreover have "walk_order (Dir es) = concat (map snd (sort_key fst ?ps))"
    by simp
  ultimately have "map (subject_at root ns) (walk_order (Dir es))
      = concat (map ?sub (sort (map fst es)))"
    by (simp only: map_concat)
  moreover have "walk root ?path (Dir es) s = (s @ concat (map ?sub (sort (map fst es))), None)"
    using loop [of "sort (map fst es)" s]
    by (subst walk.simps) (simp add: walkFn_dir)
  ultimately show ?case by simp
qed

lemma subjects_readable_dir:
  assumes "fs root = Dir es" "wf_entry (Dir es)" "readable (Dir es)"
  shows "subjects fs root = (map (subject_at root []) (walk_order (Dir es)), None)"
  using assms walk_readable [of "Dir es" "[]" root "[]"]
  by (simp add: subjects_def Walk_def Lstat_def)

subsection \<open>The expected subjects: one for each entry, with distinct names\<close>

lemma mset_concat_cong:
  "\<forall>x\<in>set xs. mset (f x) = mset (g x) \<Longrightarrow> mset (concat (map f xs)) = mset (concat (map g xs))"
  by (induction xs) simp_all

lemma mset_concat_sort_key: "mset (concat (map snd (sort_key fst ps))) = mset (concat (map snd ps))"
proof -
  have "mset (map (\<lambda>p. mset (snd p)) (sort_key fst ps)) = mset (map (\<lambda>p. mset (snd p)) ps)"
    by simp
  then have "sum_list (map (\<lambda>p. mset (snd p)) (sort_key fst ps)) = sum_list (map (\<lambda>p. mset (snd p)) ps)"
    by (metis sum_mset_sum_list)
  then show ?thesis by (simp add: mset_concat comp_def)
qed

lemma mset_walk_order: "mset (walk_order info) = mset (files_under info)"
proof (induction info)
  case (Dir es)
  have "mset (walk_order (Dir es)) =
      mset (concat (map (\<lambda>x. map (\<lambda>(p, c). (fst x # p, c)) (walk_order (snd x))) es))"
    by (simp add: mset_concat_sort_key comp_def)
  also have "\<dots> = mset (concat (map (\<lambda>x. map (\<lambda>(p, c). (fst x # p, c)) (files_under (snd x))) es))"
  proof (rule mset_concat_cong, rule ballI)
    fix x assume x: "x \<in> set es"
    obtain n e where ne: "x = (n, e)" by (cases x)
    with x Dir.IH [of x e] have "mset (walk_order e) = mset (files_under e)" by simp
    then have "image_mset (\<lambda>(p, c). (n # p, c)) (mset (walk_order e))
        = image_mset (\<lambda>(p, c). (n # p, c)) (mset (files_under e))"
      by simp
    with ne show "mset (map (\<lambda>(p, c). (fst x # p, c)) (walk_order (snd x)))
        = mset (map (\<lambda>(p, c). (fst x # p, c)) (files_under (snd x)))"
      by simp
  qed
  finally show ?case by simp
next
  case (NonDir t r)
  then show ?case by (cases r) simp_all
qed simp_all

lemma distinct_mapI: "distinct xs \<Longrightarrow> inj_on f (set xs) \<Longrightarrow> distinct (map f xs)"
  by (simp add: distinct_map)

lemma files_under_Dir_nonempty: "pc \<in> set (files_under (Dir es)) \<Longrightarrow> fst pc \<noteq> []"
  by auto

lemma walk_order_Dir_nonempty:
  assumes "pc \<in> set (walk_order (Dir es))"
  shows "fst pc \<noteq> []"
proof -
  have "set (walk_order (Dir es)) = set (files_under (Dir es))"
    using mset_walk_order [of "Dir es"] by (rule mset_eq_setD)
  with assms files_under_Dir_nonempty show ?thesis by blast
qed

lemma subject_at_root_Dir:
  "map (subject_at root []) (walk_order (Dir es))
     = map (\<lambda>pc. subject_of (join_elems (fst pc)) (snd pc)) (walk_order (Dir es))"
  using walk_order_Dir_nonempty [of _ es]
  by (intro map_cong refl) (simp add: subject_at_def name_at_def)

lemma files_under_good:
  "wf_entry info \<Longrightarrow> pc \<in> set (files_under info) \<Longrightarrow> \<forall>e\<in>set (fst pc). good_name e"
proof (induction info arbitrary: pc)
  case (Dir es)
  from Dir.prems(2) obtain x qc where x: "x \<in> set es" and qc: "qc \<in> set (files_under (snd x))"
    and pc: "pc = (fst x # fst qc, snd qc)"
    by (auto simp add: case_prod_beta)
  obtain n e where ne: "x = (n, e)" by (cases x)
  with x Dir.prems(1) have "good_name n" "wf_entry e" by auto
  with Dir.IH [of x e qc] x qc ne pc show ?case by simp
next
  case (NonDir t r)
  then show ?case by (cases r) simp_all
qed simp_all

lemma distinct_files_under:
  "wf_entry info \<Longrightarrow> distinct (map fst (files_under info))"
proof (induction info)
  case (Dir es)
  have ih: "distinct (map fst (files_under (snd x)))" if "x \<in> set es" for x
  proof -
    obtain n e where ne: "x = (n, e)" by (cases x)
    with that Dir.prems have "wf_entry e" by auto
    with Dir.IH [of x e] that ne show ?thesis by simp
  qed
  from Dir.prems have "distinct (map fst es)" by simp
  then have "distinct (concat (map (\<lambda>x. map ((#) (fst x)) (map fst (files_under (snd x)))) es))"
    using ih
  proof (induction es)
    case Nil
    show ?case by simp
  next
    case (Cons x es)
    have "distinct (map ((#) (fst x)) (map fst (files_under (snd x))))"
      using Cons.prems(2) [of x] by (rule distinct_mapI) simp_all
    moreover have "distinct (concat (map (\<lambda>x. map ((#) (fst x)) (map fst (files_under (snd x)))) es))"
      using Cons by simp
    moreover have "set (map ((#) (fst x)) (map fst (files_under (snd x))))
        \<inter> set (concat (map (\<lambda>x. map ((#) (fst x)) (map fst (files_under (snd x)))) es)) = {}"
      using Cons.prems(1) by auto
    ultimately show ?case by simp
  qed
  moreover have "map fst (files_under (Dir es))
      = concat (map (\<lambda>x. map ((#) (fst x)) (map fst (files_under (snd x)))) es)"
    by (simp add: map_concat comp_def case_prod_beta)
  ultimately show ?case by simp
next
  case (NonDir t r)
  then show ?case by (cases r) simp_all
qed simp_all

lemma join_elems_inj:
  assumes "\<forall>e\<in>set p. e \<noteq> [] \<and> CHR ''/'' \<notin> set e" "\<forall>e\<in>set q. e \<noteq> [] \<and> CHR ''/'' \<notin> set e"
    and "join_elems p = join_elems q"
  shows "p = q"
proof (cases "p = []")
  case True
  show ?thesis
  proof (rule ccontr)
    assume "p \<noteq> q"
    with True have "q \<noteq> []" by simp
    with assms(2) have "join_elems q \<noteq> []"
      by (intro join_elems_nonempty) (auto simp add: hd_in_set)
    with True assms(3) show False by simp
  qed
next
  case False
  with assms(1) have "join_elems p \<noteq> []"
    by (intro join_elems_nonempty) (auto simp add: hd_in_set)
  with assms(3) have "q \<noteq> []" by auto
  from False assms(1) have sp: "split_path (join_elems p) = p" by (simp add: split_join)
  from \<open>q \<noteq> []\<close> assms(2) have sq: "split_path (join_elems q) = q" by (simp add: split_join)
  have "p = split_path (join_elems p)" by (simp only: sp)
  also have "\<dots> = split_path (join_elems q)" by (simp only: assms(3))
  also have "\<dots> = q" by (rule sq)
  finally show ?thesis .
qed

lemma distinct_walk_names:
  assumes "wf_entry info"
  shows "distinct (map (\<lambda>pc. join_elems (fst pc)) (walk_order info))"
proof -
  have m: "mset (map fst (walk_order info)) = mset (map fst (files_under info))"
    using mset_walk_order [of info] by simp
  then have d: "distinct (map fst (walk_order info))"
    using distinct_files_under [OF assms] by (metis mset_eq_imp_distinct_iff)
  have s: "set (walk_order info) = set (files_under info)"
    using mset_walk_order [of info] by (rule mset_eq_setD)
  have "inj_on join_elems (set (map fst (walk_order info)))"
  proof (rule inj_onI)
    fix p q
    assume p: "p \<in> set (map fst (walk_order info))" and q: "q \<in> set (map fst (walk_order info))"
      and eq: "join_elems p = join_elems q"
    from p s files_under_good [OF assms] have "\<forall>e\<in>set p. good_name e" by auto
    moreover from q s files_under_good [OF assms] have "\<forall>e\<in>set q. good_name e" by auto
    ultimately show "p = q" using eq by (intro join_elems_inj) (auto simp add: good_name_def)
  qed
  with d have "distinct (map join_elems (map fst (walk_order info)))"
    by (rule distinct_mapI)
  then show ?thesis by (simp add: comp_def)
qed

lemma filter_key_distinct:
  "distinct (map f zs) \<Longrightarrow> k \<in> set zs \<Longrightarrow> filter (\<lambda>x. f k = f x) zs = [k]"
proof (induction zs)
  case Nil
  then show ?case by simp
next
  case (Cons z zs)
  show ?case
  proof (cases "k = z")
    case True
    with Cons.prems have "filter (\<lambda>x. f k = f x) zs = []"
      by (auto simp add: filter_empty_conv)
    with True show ?thesis by simp
  next
    case False
    with Cons.prems have mem: "k \<in> set zs" and dz: "distinct (map f zs)"
      and nz: "f z \<notin> f ` set zs" by auto
    from mem nz have "f k \<noteq> f z" by (metis image_eqI)
    moreover from Cons.IH [OF dz mem] have "filter (\<lambda>x. f k = f x) zs = [k]" .
    ultimately show ?thesis by simp
  qed
qed

lemma sort_key_mset_distinct:
  assumes "distinct (map f xs)" "mset ys = mset xs"
  shows "sort_key f ys = sort_key f xs"
proof (rule properties_for_sort_key)
  show "mset (sort_key f xs) = mset ys" using assms(2) by simp
  show "sorted (map f (sort_key f xs))" by simp
  fix k assume k: "k \<in> set (sort_key f xs)"
  have "mset (map f ys) = mset (map f xs)" using assms(2) by simp
  with assms(1) have dy: "distinct (map f ys)" by (metis mset_eq_imp_distinct_iff)
  have "mset (map f (sort_key f xs)) = mset (map f xs)" by simp
  with assms(1) have ds: "distinct (map f (sort_key f xs))" by (metis mset_eq_imp_distinct_iff)
  from k have "k \<in> set ys" using assms(2) by (metis mset_eq_setD set_sort)
  with dy have "filter (\<lambda>x. f k = f x) ys = [k]" by (rule filter_key_distinct)
  moreover from ds k have "filter (\<lambda>x. f k = f x) (sort_key f xs) = [k]" by (rule filter_key_distinct)
  ultimately show "filter (\<lambda>x. f k = f x) (sort_key f xs) = filter (\<lambda>x. f k = f x) ys" by simp
qed

lemma walk_order_listing_independent:
  assumes "distinct (map fst es)" "mset es' = mset es"
  shows "walk_order (Dir es') = walk_order (Dir es)"
proof -
  let ?h = "\<lambda>x. (fst x, map (\<lambda>(p, c). (fst x # p, c)) (walk_order (snd x)))"
  have "map fst (map ?h es) = map fst es" by (simp add: comp_def)
  with assms(1) have "distinct (map fst (map ?h es))" by (simp only:)
  moreover have "mset (map ?h es') = mset (map ?h es)" using assms(2) by simp
  ultimately have "sort_key fst (map ?h es') = sort_key fst (map ?h es)"
    by (rule sort_key_mset_distinct)
  then show ?thesis by simp
qed

subsection \<open>Scanning a directory\<close>

lemma artifacts_fs_out:
  "artifacts_fs ''out'' =
     Dir [(''b.txt'', NonDir Regular (Inr [0x62])),
          (''a'', Dir [(''z'', NonDir Regular (Inr [])),
                       (''c'', NonDir Symlink (Inr [0x63]))]),
          (''a.txt'', NonDir Regular (Inr [0x61, 0x62, 0x63])),
          (''e'', Dir [])]"
  by (simp add: artifacts_fs_def)

lemma artifacts_fs_names:
  "map Name (fst (subjects artifacts_fs ''out'')) = [''a/c'', ''a/z'', ''a.txt'', ''b.txt'']"
proof -
  have "subjects artifacts_fs ''out'' =
      (map (subject_at ''out'' []) (walk_order (artifacts_fs ''out'')), None)"
    using subjects_readable_dir [of artifacts_fs "''out''"]
    by (simp add: artifacts_fs_out good_name_def)
  then show ?thesis
    by (simp add: artifacts_fs_out subject_at_def subject_of_def name_at_def)
qed

text \<open>
  Claim C2, as stated, fails: the scan of the directory \<^verbatim>\<open>out\<close> returns four
  subjects, one of them for the symbolic link \<^verbatim>\<open>a/c\<close>, while only three regular
  files lie under the directory.
\<close>

theorem symlink_contributes_subject:
  "map Name (fst (subjects artifacts_fs ''out'')) = [''a/c'', ''a/z'', ''a.txt'', ''b.txt'']
   \<and> regular_names (artifacts_fs ''out'') = [''b.txt'', ''a/z'', ''a.txt'']"
  using artifacts_fs_names by (simp add: regular_names_def artifacts_fs_out)

text \<open>
  Claim C2, amended.  For every root that is a directory with a well-formed tree on which
  every call of the walk succeeds, the subject collector returns no error and exactly one
  subject for each entry under the root that is not a directory, whatever its type (regular
  file, symbolic link or other): the name of the subject is the path of the entry relative
  to the root, its digest is the SHA-256 digest of what reading the entry returns.
  Directories contribute no subject, and an empty directory yields the empty list.
\<close>

theorem directory_subjects:
  assumes "fs root = Dir es" "wf_entry (Dir es)" "readable (Dir es)"
  shows "snd (subjects fs root) = None
       \<and> mset (fst (subjects fs root)) =
           mset (map (\<lambda>pc. \<lparr>Name = join_elems (fst pc),
                             Digest = [''sha256'' \<mapsto> EncodeToString (Sum256 (snd pc))]\<rparr>)
                     (files_under (Dir es)))
       \<and> (es = [] \<longrightarrow> subjects fs root = ([], None))"
proof -
  let ?mk = "\<lambda>pc. \<lparr>Name = join_elems (fst pc),
                     Digest = [''sha256'' \<mapsto> EncodeToString (Sum256 (snd pc))]\<rparr>"
  have s: "subjects fs root = (map ?mk (walk_order (Dir es)), None)"
    using subjects_readable_dir [of fs root es] assms subject_at_root_Dir [of root es]
    by (simp add: subject_of_def)
  have "mset (map ?mk (walk_order (Dir es))) = mset (map ?mk (files_under (Dir es)))"
    using mset_walk_order [of "Dir es"] by (simp only: mset_map)
  with s show ?thesis by simp
qed

theorem directory_subjects_witness:
  "snd (subjects artifacts_fs ''out'') = None
   \<and> mset (fst (subjects artifacts_fs ''out'')) =
       mset [\<lparr>Name = ''b.txt'', Digest = [''sha256'' \<mapsto> EncodeToString (Sum256 [0x62])]\<rparr>,
             \<lparr>Name = ''a/z'', Digest = [''sha256'' \<mapsto> EncodeToString (Sum256 [])]\<rparr>,
             \<lparr>Name = ''a/c'', Digest = [''sha256'' \<mapsto> EncodeToString (Sum256 [0x63])]\<rparr>,
             \<lparr>Name = ''a.txt'', Digest = [''sha256'' \<mapsto> EncodeToString (Sum256 [0x61, 0x62, 0x63])]\<rparr>]
   \<and> subjects artifacts_fs ''empty'' = ([], None)"
proof -
  let ?es = "[(''b.txt'', NonDir Regular (Inr [0x62])),
        (''a'', Dir [(''z'', NonDir Regular (Inr [])),
                     (''c'', NonDir Symlink (Inr [0x63]))]),
        (''a.txt'', NonDir Regular (Inr [0x61, 0x62, 0x63])),
        (''e'', Dir [])]"
  have h1: "artifacts_fs ''out'' = Dir ?es" by (rule artifacts_fs_out)
  have h2: "wf_entry (Dir ?es)" by (simp add: good_name_def)
  have h3: "readable (Dir ?es)" by simp
  have "files_under (Dir ?es) =
      [([''b.txt''], [0x62]), ([''a'', ''z''], []), ([''a'', ''c''], [0x63]),
       ([''a.txt''], [0x61, 0x62, 0x63])]"
    by simp
  with directory_subjects [of artifacts_fs "''out''" ?es, OF h1 h2 h3]
  have out: "snd (subjects artifacts_fs ''out'') = None
   \<and> mset (fst (subjects artifacts_fs ''out'')) =
       mset [\<lparr>Name = ''b.txt'', Digest = [''sha256'' \<mapsto> EncodeToString (Sum256 [0x62])]\<rparr>,
             \<lparr>Name = ''a/z'', Digest = [''sha256'' \<mapsto> EncodeToString (Sum256 [])]\<rparr>,
             \<lparr>Name = ''a/c'', Digest = [''sha256'' \<mapsto> EncodeToString (Sum256 [0x63])]\<rparr>,
             \<lparr>Name = ''a.txt'', Digest = [''sha256'' \<mapsto> EncodeToString (Sum256 [0x61, 0x62, 0x63])]\<rparr>]"
    by (simp only: list.map fst_conv snd_conv join_elems.simps append.simps)
  have e1: "artifacts_fs ''empty'' = Dir []" by (simp add: artifacts_fs_def)
  have e2: "wf_entry (Dir [])" by simp
  have e3: "readable (Dir [])" by simp
  from directory_subjects [of artifacts_fs "''empty''" "[]", OF e1 e2 e3]
  have "subjects artifacts_fs ''empty'' = ([], None)" by blast
  with out show ?thesis by blast
qed

text \<open>
  Claim C9, as stated, fails: the file system lists \<^verbatim>\<open>b.txt\<close> before \<^verbatim>\<open>a.txt\<close>,
  and the scan returns the subject of \<^verbatim>\<open>a.txt\<close> first: the subjects are not in the
  order of the file system, and they are sorted.
\<close>

theorem listing_order_not_kept:
  "map Name (fst (subjects flat_fs ''out'')) = [''a.txt'', ''b.txt'']
   \<and> listed_names (flat_fs ''out'') = [''b.txt'', ''a.txt'']
   \<and> sorted (map Name (fst (subjects flat_fs ''out'')))"
proof -
  have "subjects flat_fs ''out'' =
      (map (subject_at ''out'' []) (walk_order (flat_fs ''out'')), None)"
    using subjects_readable_dir [of flat_fs "''out''"]
    by (simp add: flat_fs_def good_name_def)
  then have "map Name (fst (subjects flat_fs ''out'')) = [''a.txt'', ''b.txt'']"
    by (simp add: flat_fs_def subject_at_def subject_of_def name_at_def)
  moreover have "listed_names (flat_fs ''out'') = [''b.txt'', ''a.txt'']"
    by (simp add: listed_names_def flat_fs_def)
  moreover have "sorted [''a.txt'', ''b.txt'']" by simp
  ultimately show ?thesis by simp
qed

text \<open>
  Claim C9, amended.  For every root that is a directory with a well-formed tree on which
  every call of the walk succeeds, the subjects appear in the order of the walk: depth
  first, the entries of every directory in ascending byte-wise order of their names.  The
  order in which the file system lists the entries of the root has no influence on the
  result.  The list as a whole is not sorted again by name.  The names of the subjects are
  pairwise distinct, since no directory holds a name twice.
\<close>

theorem subjects_order:
  assumes "fs root = Dir es" "wf_entry (Dir es)" "readable (Dir es)"
  shows "map Name (fst (subjects fs root)) = map (\<lambda>pc. join_elems (fst pc)) (walk_order (Dir es))
       \<and> distinct (map Name (fst (subjects fs root)))
       \<and> (\<forall>fs' es'. fs' root = Dir es' \<and> mset es' = mset es \<longrightarrow>
             subjects fs' root = subjects fs root)"
proof -
  have s: "subjects fs root =
      (map (\<lambda>pc. subject_of (join_elems (fst pc)) (snd pc)) (walk_order (Dir es)), None)"
    using subjects_readable_dir [of fs root es] assms subject_at_root_Dir [of root es] by simp
  then have names: "map Name (fst (subjects fs root))
      = map (\<lambda>pc. join_elems (fst pc)) (walk_order (Dir es))"
    by (simp add: subject_of_def comp_def)
  moreover have "distinct (map (\<lambda>pc. join_elems (fst pc)) (walk_order (Dir es)))"
    using assms(2) by (rule distinct_walk_names)
  moreover have "subjects fs' root = subjects fs root"
    if f: "fs' root = Dir es'" and m: "mset es' = mset es" for fs' es'
  proof -
    from m have st: "set es' = set es" by (rule mset_eq_setD)
    from m have "mset (map fst es') = mset (map fst es)" by simp
    moreover from assms(2) have d: "distinct (map fst es)" by simp
    ultimately have "distinct (map fst es')" by (metis mset_eq_imp_distinct_iff)
    with st assms(2,3) have "wf_entry (Dir es')" "readable (Dir es')" by simp_all
    with subjects_readable_dir [of fs' root es'] f
    have "subjects fs' root = (map (subject_at root []) (walk_order (Dir es')), None)" by simp
    moreover from subjects_readable_dir [of fs root es] assms
    have "subjects fs root = (map (subject_at root []) (walk_order (Dir es)), None)" by simp
    ultimately show ?thesis using walk_order_listing_independent [OF d m] by simp
  qed
  ultimately show ?thesis by (simp only:) blast
qed

theorem subjects_order_witness:
  "map Name (fst (subjects artifacts_fs ''out'')) = [''a/c'', ''a/z'', ''a.txt'', ''b.txt'']
   \<and> distinct (map Name (fst (subjects artifacts_fs ''out'')))
   \<and> \<not> sorted (map Name (fst (subjects artifacts_fs ''out'')))
   \<and> subjects relisted_fs ''out'' = subjects flat_fs ''out''"
proof -
  let ?es = "[(''b.txt'', NonDir Regular (Inr [0x62])),
        (''a'', Dir [(''z'', NonDir Regular (Inr [])),
                     (''c'', NonDir Symlink (Inr [0x63]))]),
        (''a.txt'', NonDir Regular (Inr [0x61, 0x62, 0x63])),
        (''e'', Dir [])]"
  have h1: "artifacts_fs ''out'' = Dir ?es" by (rule artifacts_fs_out)
  have h2: "wf_entry (Dir ?es)" by (simp add: good_name_def)
  have h3: "readable (Dir ?es)" by simp
  from subjects_order [of artifacts_fs "''out''" ?es, OF h1 h2 h3]
  have "map Name (fst (subjects artifacts_fs ''out'')) =
      map (\<lambda>pc. join_elems (fst pc)) (walk_order (Dir ?es))"
    and d: "distinct (map Name (fst (subjects artifacts_fs ''out'')))"
    by blast+
  moreover have "map (\<lambda>pc. join_elems (fst pc)) (walk_order (Dir ?es))
      = [''a/c'', ''a/z'', ''a.txt'', ''b.txt'']"
    by simp
  ultimately have n: "map Name (fst (subjects artifacts_fs ''out''))
      = [''a/c'', ''a/z'', ''a.txt'', ''b.txt'']"
    by (simp only:)
  have ns: "\<not> sorted [''a/c'', ''a/z'', ''a.txt'', ''b.txt'']"
    by simp
  let ?fl = "[(''b.txt'', NonDir Regular (Inr [0x62])), (''a.txt'', NonDir Regular (Inr [0x61]))]"
  let ?rl = "[(''a.txt'', NonDir Regular (Inr [0x61])), (''b.txt'', NonDir Regular (Inr [0x62]))]"
  have f1: "flat_fs ''out'' = Dir ?fl" by (simp add: flat_fs_def)
  have f2: "wf_entry (Dir ?fl)" by (simp add: good_name_def)
  have f3: "readable (Dir ?fl)" by simp
  have r1: "relisted_fs ''out'' = Dir ?rl" by (simp add: relisted_fs_def)
  have r2: "mset ?rl = mset ?fl" by simp
  from subjects_order [of flat_fs "''out''" ?fl, OF f1 f2 f3] r1 r2
  have "subjects relisted_fs ''out'' = subjects flat_fs ''out''" by blast
  with n d ns show ?thesis by (simp only:) simp
qed

end
